theory Spec2Isabelle
  imports Main "HOL-Library.Word"
begin

section \<open>JavaScript strings\<close>

text \<open>
  A JavaScript string is a sequence of UTF-16 code units, and every string method the plugin
  calls (\<open>trim\<close>, \<open>startsWith\<close>, \<open>endsWith\<close>, \<open>slice\<close>, \<open>replace\<close>, \<open>split\<close>, \<open>join\<close>,
  \<open>lastIndexOf\<close>, \<open>contains\<close>) works on code units. A string is therefore a list of 16-bit
  words; \<open>lit\<close> turns an ASCII literal into such a list.
\<close>

type_synonym jschar = "16 word"
type_synonym jsstring = "jschar list"

definition lit :: "string \<Rightarrow> jsstring" where
  "lit s = map of_char s"

abbreviation SLASH :: jschar where
  "SLASH \<equiv> 0x2F"

text \<open>
  \<open>String.prototype.trim\<close> removes the code points of WhiteSpace and LineTerminator
  (ECMA-262): TAB, LF, VT, FF, CR, SP, NBSP, U+1680, U+2000 to U+200A, U+2028, U+2029,
  U+202F, U+205F, U+3000 and U+FEFF. All of them are single code units.
\<close>

definition isWhiteSpace :: "jschar \<Rightarrow> bool" where
  "isWhiteSpace c =
     (c \<in> set [0x9, 0xA, 0xB, 0xC, 0xD, 0x20, 0xA0, 0x1680, 0x2028, 0x2029,
                0x202F, 0x205F, 0x3000, 0xFEFF]
      \<or> (0x2000 \<le> c \<and> c \<le> 0x200A))"

definition trim :: "jsstring \<Rightarrow> jsstring" where
  "trim s = rev (dropWhile isWhiteSpace (rev (dropWhile isWhiteSpace s)))"

definition startsWith :: "jsstring \<Rightarrow> jsstring \<Rightarrow> bool" where
  "startsWith s p = (take (length p) s = p)"

definition endsWith :: "jsstring \<Rightarrow> jsstring \<Rightarrow> bool" where
  "endsWith s p = (length p \<le> length s \<and> drop (length s - length p) s = p)"

text \<open>
  \<open>s.slice(b, e)\<close>: a negative index counts from the end, both indices are clamped to
  the string, and the result is empty when the start is not before the end.
  \<open>s.slice(b)\<close> is \<open>s.slice(b, s.length)\<close>.
\<close>

definition slice :: "jsstring \<Rightarrow> int \<Rightarrow> int \<Rightarrow> jsstring" where
  "slice s b e =
     (let n = int (length s);
          from = (if b < 0 then max (n + b) 0 else min b n);
          to = (if e < 0 then max (n + e) 0 else min e n)
      in take (nat (to - from)) (drop (nat from) s))"

definition slice_from :: "jsstring \<Rightarrow> int \<Rightarrow> jsstring" where
  "slice_from s b = slice s b (int (length s))"

text \<open>
  \<open>s.replace(pat, rep)\<close> with a string pattern replaces the first occurrence of \<open>pat\<close>
  only; the empty pattern occurs at index 0. The plugin's replacement is the empty string,
  so the \<open>$\<close> patterns of a replacement string do not arise.
\<close>

fun replace :: "jsstring \<Rightarrow> jsstring \<Rightarrow> jsstring \<Rightarrow> jsstring" where
  "replace [] pat rep = (if pat = [] then rep else [])"
| "replace (c # cs) pat rep =
     (if startsWith (c # cs) pat then rep @ drop (length pat) (c # cs)
      else c # replace cs pat rep)"

text \<open>\<open>s.split(sep)\<close> for a separator of one code unit; \<open>"".split("/")\<close> is \<open>[""]\<close>.\<close>

fun split :: "jsstring \<Rightarrow> jschar \<Rightarrow> jsstring list" where
  "split [] sep = [] # []"
| "split (c # cs) sep =
     (if c = sep then [] # split cs sep
      else (case split cs sep of
              [] \<Rightarrow> [c] # []
            | x # xs \<Rightarrow> (c # x) # xs))"

text \<open>\<open>parts.join(sep)\<close>.\<close>

fun join :: "jsstring list \<Rightarrow> jsstring \<Rightarrow> jsstring" where
  "join [] sep = []"
| "join [x] sep = x"
| "join (x # y # ys) sep = x @ sep @ join (y # ys) sep"

text \<open>
  \<open>s.lastIndexOf(p)\<close>: the greatest index at which \<open>p\<close> occurs, or \<open>-1\<close>.
  \<open>s.contains(p)\<close> is Obsidian's alias of \<open>s.includes(p)\<close>.
\<close>

fun lastIndexOf_upto :: "jsstring \<Rightarrow> jsstring \<Rightarrow> nat \<Rightarrow> int" where
  "lastIndexOf_upto s p 0 = (if startsWith s p then 0 else - 1)"
| "lastIndexOf_upto s p (Suc k) =
     (if startsWith (drop (Suc k) s) p then int (Suc k) else lastIndexOf_upto s p k)"

definition lastIndexOf :: "jsstring \<Rightarrow> jsstring \<Rightarrow> int" where
  "lastIndexOf s p = lastIndexOf_upto s p (length s)"

definition contains :: "jsstring \<Rightarrow> jsstring \<Rightarrow> bool" where
  "contains s p = (0 \<le> lastIndexOf s p)"

section \<open>Data model (src/main.ts, lines 4 to 23)\<close>

record ArchiveConfig =
  sourceFolder :: jsstring
  destFolder :: jsstring
  maintainFolderStructure :: bool
  deleteEmptyFolders :: bool
  days :: int

definition MIN_DAYS :: int where
  "MIN_DAYS = 1"

definition NUM_MS_IN_DAY :: int where
  "NUM_MS_IN_DAY = 86400000"

text \<open>
  Obsidian's \<open>TFile\<close> as far as the plugin reads it: \<open>path\<close>, \<open>name\<close> and \<open>stat.ctime\<close>
  (milliseconds since the epoch). A \<open>TFolder\<close> has a path and its children.
\<close>

record TFile =
  path :: jsstring
  name :: jsstring
  ctime :: int

datatype TAbstractFile =
    File TFile
  | Folder jsstring "TAbstractFile list"

fun pathOf :: "TAbstractFile \<Rightarrow> jsstring" where
  "pathOf (File f) = path f"
| "pathOf (Folder p ch) = p"

section \<open>Path utilities (src/main.ts, lines 185 to 251)\<close>

text \<open>The three \<open>while\<close> loops of \<open>joinPaths\<close>.\<close>

function joinPaths_stripEnd :: "jsstring \<Rightarrow> jsstring" where
  "joinPaths_stripEnd p =
     (if endsWith p (lit ''/'') then joinPaths_stripEnd (slice p 0 (int (length p) - 1))
      else p)"
  by pat_completeness auto
termination
  by (relation "measure length")
     (auto simp: endsWith_def slice_def lit_def Let_def min_def split: if_splits)

declare joinPaths_stripEnd.simps [simp del]

function joinPaths_stripStart :: "jsstring \<Rightarrow> jsstring" where
  "joinPaths_stripStart p =
     (if startsWith p (lit ''/'') then joinPaths_stripStart (slice_from p 1)
      else p)"
  by pat_completeness auto
termination
proof (relation "measure length")
  fix p :: jsstring
  assume "startsWith p (lit ''/'')"
  then have "p \<noteq> []"
    by (auto simp: startsWith_def lit_def)
  then show "(slice_from p 1, p) \<in> measure length"
    by (cases p) (auto simp: slice_from_def slice_def Let_def)
qed simp

declare joinPaths_stripStart.simps [simp del]

definition joinPaths :: "jsstring \<Rightarrow> jsstring \<Rightarrow> jsstring" where
  "joinPaths p1 p2 =
     (let p1Trimmed = joinPaths_stripEnd (trim p1);
          p2Trimmed = joinPaths_stripEnd (joinPaths_stripStart (trim p2))
      in if length p1Trimmed = 0 \<and> length p2Trimmed = 0 then []
         else if length p1Trimmed = 0 then p2Trimmed
         else if length p2Trimmed = 0 then p1Trimmed
         else p1Trimmed @ lit ''/'' @ p2Trimmed)"

definition getFilePathInSourceFolder :: "TFile \<Rightarrow> ArchiveConfig \<Rightarrow> jsstring" where
  "getFilePathInSourceFolder sourceFile archiveConfig =
     replace (path sourceFile) (sourceFolder archiveConfig) []"

definition splitPathString :: "jsstring \<Rightarrow> jsstring list" where
  "splitPathString p = filter (\<lambda>segment. length segment > 0) (split p SLASH)"

definition getFolderFromPath :: "jsstring \<Rightarrow> jsstring" where
  "getFolderFromPath fileOrFolderPath =
     (if \<not> endsWith fileOrFolderPath (lit ''.md'') then fileOrFolderPath
      else if \<not> contains fileOrFolderPath (lit ''/'') then []
      else slice fileOrFolderPath 0 (lastIndexOf fileOrFolderPath (lit ''/'')))"

section \<open>The host: Obsidian's vault and the clock\<close>

text \<open>
  The vault is Obsidian's, not the plugin's, so it is a parameter of the model: a record of
  the four vault methods the plugin calls, over a state \<open>'s\<close> of the host that is left
  abstract, and the clock that \<open>new Date()\<close> reads. A method that may throw returns an
  \<open>outcome\<close>: \<open>Returned\<close> with the next state, or \<open>Thrown\<close> with the state the exception
  leaves behind. \<open>getAbstractFileByPath\<close> returns \<open>null\<close> as \<open>None\<close>.
\<close>

datatype 'a outcome = Returned 'a | Thrown 'a

fun state_of :: "'a outcome \<Rightarrow> 'a" where
  "state_of (Returned x) = x"
| "state_of (Thrown x) = x"

record 's Vault =
  getAbstractFileByPath :: "'s \<Rightarrow> jsstring \<Rightarrow> TAbstractFile option"
  delete :: "'s \<Rightarrow> TAbstractFile \<Rightarrow> bool \<Rightarrow> 's outcome"
  copy :: "'s \<Rightarrow> TFile \<Rightarrow> jsstring \<Rightarrow> 's outcome"
  createFolder :: "'s \<Rightarrow> jsstring \<Rightarrow> 's outcome"
  getTime :: "'s \<Rightarrow> int"

text \<open>
  The plugin object: its settings, the host state behind \<open>this.app\<close>, and two histories
  kept for the statements below: every vault call made, in order, and every line written
  with \<open>console.warn\<close>.
\<close>

datatype VaultCall =
    CallGetAbstractFileByPath jsstring
  | CallDelete TAbstractFile bool
  | CallCopy TFile jsstring
  | CallCreateFolder jsstring

record 's Plugin =
  settings :: "ArchiveConfig list"
  app :: 's
  calls :: "VaultCall list"
  console :: "jsstring list"

definition logCall :: "VaultCall \<Rightarrow> 's Plugin \<Rightarrow> 's Plugin" where
  "logCall c w = w\<lparr>calls := calls w @ [c]\<rparr>"

definition vault_delete ::
  "'s Vault \<Rightarrow> TAbstractFile \<Rightarrow> bool \<Rightarrow> 's Plugin \<Rightarrow> 's Plugin outcome" where
  "vault_delete V e force w =
     (case delete V (app w) e force of
        Returned s \<Rightarrow> Returned (logCall (CallDelete e force) w\<lparr>app := s\<rparr>)
      | Thrown s \<Rightarrow> Thrown (logCall (CallDelete e force) w\<lparr>app := s\<rparr>))"

definition vault_copy ::
  "'s Vault \<Rightarrow> TFile \<Rightarrow> jsstring \<Rightarrow> 's Plugin \<Rightarrow> 's Plugin outcome" where
  "vault_copy V file newFilePath w =
     (case copy V (app w) file newFilePath of
        Returned s \<Rightarrow> Returned (logCall (CallCopy file newFilePath) w\<lparr>app := s\<rparr>)
      | Thrown s \<Rightarrow> Thrown (logCall (CallCopy file newFilePath) w\<lparr>app := s\<rparr>))"

definition vault_createFolder ::
  "'s Vault \<Rightarrow> jsstring \<Rightarrow> 's Plugin \<Rightarrow> 's Plugin outcome" where
  "vault_createFolder V p w =
     (case createFolder V (app w) p of
        Returned s \<Rightarrow> Returned (logCall (CallCreateFolder p) w\<lparr>app := s\<rparr>)
      | Thrown s \<Rightarrow> Thrown (logCall (CallCreateFolder p) w\<lparr>app := s\<rparr>))"

section \<open>The archive engine (src/main.ts, lines 44 to 176 and 259 to 279)\<close>

definition getValidArchiveConfigs :: "'s Plugin \<Rightarrow> ArchiveConfig list" where
  "getValidArchiveConfigs w =
     filter (\<lambda>config. length (trim (sourceFolder config)) > 0
                     \<and> length (trim (destFolder config)) > 0)
            (settings w)"

text \<open>
  \<open>new Date(v)\<close> clips its time value: beyond 8.64e15 ms from the epoch the date is
  invalid (\<open>None\<close>), and \<open><\<close> on two dates compares their time values, with an invalid
  date less than nothing. Timestamps and \<open>days\<close> are integers, where the arithmetic of
  JavaScript numbers is exact in the range of valid dates.
\<close>

definition Date :: "int \<Rightarrow> int option" where
  "Date v = (if \<bar>v\<bar> \<le> 8640000000000000 then Some v else None)"

definition isValidTime :: "int \<Rightarrow> bool" where
  "isValidTime v = (Date v \<noteq> None)"

definition date_less :: "int option \<Rightarrow> int option \<Rightarrow> bool" where
  "date_less a b = (case a of None \<Rightarrow> False
                    | Some x \<Rightarrow> (case b of None \<Rightarrow> False | Some y \<Rightarrow> x < y))"

text \<open>\<open>today\<close> is the time value of \<open>new Date()\<close>, read by the caller from the clock.\<close>

definition shouldFileBeArchived :: "int \<Rightarrow> TFile \<Rightarrow> ArchiveConfig \<Rightarrow> bool" where
  "shouldFileBeArchived today sourceFile archiveConfig =
     (let createdDate = Date (ctime sourceFile);
          cutoffDate = Date (today - NUM_MS_IN_DAY * days archiveConfig)
      in date_less createdDate cutoffDate)"

text \<open>\<open>copyFile\<close> and \<open>createFoldersInPath\<close> catch what the vault throws and go on.\<close>

definition copyFile :: "'s Vault \<Rightarrow> TFile \<Rightarrow> jsstring \<Rightarrow> 's Plugin \<Rightarrow> 's Plugin" where
  "copyFile V file newFilePath w =
     (case vault_copy V file newFilePath w of Returned w' \<Rightarrow> w' | Thrown w' \<Rightarrow> w')"

definition createFoldersInPath :: "'s Vault \<Rightarrow> jsstring \<Rightarrow> 's Plugin \<Rightarrow> 's Plugin" where
  "createFoldersInPath V fileOrFolderPath w =
     (case vault_createFolder V (getFolderFromPath fileOrFolderPath) w of
        Returned w' \<Rightarrow> w' | Thrown w' \<Rightarrow> w')"

text \<open>
  The \<open>for\<close> loop of \<open>deleteEmptyFolders\<close> (lines 164 to 174); \<open>pop\<close> on an empty array
  leaves it empty, as \<open>butlast\<close> does.
\<close>

function deleteEmptyFolders_loop ::
  "'s Vault \<Rightarrow> ArchiveConfig \<Rightarrow> nat \<Rightarrow> nat \<Rightarrow> jsstring list \<Rightarrow> 's Plugin \<Rightarrow> 's Plugin outcome"
  where
  "deleteEmptyFolders_loop V archiveConfig i numPathParts folderPathParts w =
     (if i < numPathParts then
        (let currDirPath =
               joinPaths (sourceFolder archiveConfig) (join folderPathParts (lit ''/''));
             abstractFolder = getAbstractFileByPath V (app w) currDirPath;
             w1 = logCall (CallGetAbstractFileByPath currDirPath) w
         in case abstractFolder of
              Some (Folder p ch) \<Rightarrow>
                (if length ch = 0 then
                   (case vault_delete V (Folder p ch) True w1 of
                      Returned w2 \<Rightarrow>
                        deleteEmptyFolders_loop V archiveConfig (i + 1) numPathParts
                          (butlast folderPathParts) w2
                    | Thrown w2 \<Rightarrow> Thrown w2)
                 else deleteEmptyFolders_loop V archiveConfig (i + 1) numPathParts
                        (butlast folderPathParts) w1)
            | _ \<Rightarrow> deleteEmptyFolders_loop V archiveConfig (i + 1) numPathParts
                     (butlast folderPathParts) w1)
      else Returned w)"
  by pat_completeness auto
termination
  by (relation "measure (\<lambda>(V, archiveConfig, i, numPathParts, folderPathParts, w).
                           numPathParts - i)") auto

declare deleteEmptyFolders_loop.simps [simp del]

text \<open>The method \<open>deleteEmptyFolders\<close>; the record field of that name is the setting.\<close>

definition deleteEmptyFolders_walk ::
  "'s Vault \<Rightarrow> TFile \<Rightarrow> ArchiveConfig \<Rightarrow> 's Plugin \<Rightarrow> 's Plugin outcome" where
  "deleteEmptyFolders_walk V deletedFile archiveConfig w =
     (let filePathInSourceFolder = getFilePathInSourceFolder deletedFile archiveConfig;
          sourceFileFolderPath = getFolderFromPath filePathInSourceFolder;
          folderPathParts = splitPathString sourceFileFolderPath
      in if length folderPathParts > 0 then
           deleteEmptyFolders_loop V archiveConfig 0 (length folderPathParts) folderPathParts w
         else Returned w)"

text \<open>The destination that \<open>processSourceFile\<close> builds in \<open>newFilePath\<close> (lines 82 to 92).\<close>

definition newFilePath :: "TFile \<Rightarrow> ArchiveConfig \<Rightarrow> jsstring" where
  "newFilePath sourceFile archiveConfig =
     (if maintainFolderStructure archiveConfig then
        joinPaths (destFolder archiveConfig) (getFilePathInSourceFolder sourceFile archiveConfig)
      else joinPaths (destFolder archiveConfig) (name sourceFile))"

definition processSourceFile ::
  "'s Vault \<Rightarrow> TFile \<Rightarrow> ArchiveConfig \<Rightarrow> 's Plugin \<Rightarrow> 's Plugin outcome" where
  "processSourceFile V sourceFile archiveConfig w =
     (if shouldFileBeArchived (getTime V (app w)) sourceFile archiveConfig then
        (let w1 = (if maintainFolderStructure archiveConfig
                   then createFoldersInPath V (newFilePath sourceFile archiveConfig) w
                   else w);
             existingArchiveFile =
               getAbstractFileByPath V (app w1) (newFilePath sourceFile archiveConfig);
             w2 = logCall (CallGetAbstractFileByPath (newFilePath sourceFile archiveConfig)) w1
         in case (case existingArchiveFile of
                    Some e \<Rightarrow> vault_delete V e False w2
                  | None \<Rightarrow> Returned w2) of
              Thrown w3 \<Rightarrow> Thrown w3
            | Returned w3 \<Rightarrow>
                (case vault_delete V (File sourceFile) False
                        (copyFile V sourceFile (newFilePath sourceFile archiveConfig) w3) of
                   Thrown w5 \<Rightarrow> Thrown w5
                 | Returned w5 \<Rightarrow>
                     (if deleteEmptyFolders archiveConfig
                      then deleteEmptyFolders_walk V sourceFile archiveConfig w5
                      else Returned w5)))
      else Returned w)"

text \<open>\<open>getMarkdownFilesInFolderRecursive\<close>, on the children of the folder.\<close>

fun getMarkdownFilesInFolderRecursive :: "TAbstractFile list \<Rightarrow> TFile list" where
  "getMarkdownFilesInFolderRecursive [] = []"
| "getMarkdownFilesInFolderRecursive (File child # rest) =
     (if endsWith (name child) (lit ''.md'') then [child] else [])
     @ getMarkdownFilesInFolderRecursive rest"
| "getMarkdownFilesInFolderRecursive (Folder p ch # rest) =
     getMarkdownFilesInFolderRecursive ch @ getMarkdownFilesInFolderRecursive rest"

text \<open>The two \<open>for\<close> loops of \<open>processVault\<close>; an exception leaves both.\<close>

fun processVault_files ::
  "'s Vault \<Rightarrow> ArchiveConfig \<Rightarrow> TFile list \<Rightarrow> 's Plugin \<Rightarrow> 's Plugin outcome" where
  "processVault_files V archiveConfig [] w = Returned w"
| "processVault_files V archiveConfig (sourceFile # sourceFiles) w =
     (case processSourceFile V sourceFile archiveConfig w of
        Returned w' \<Rightarrow> processVault_files V archiveConfig sourceFiles w'
      | Thrown w' \<Rightarrow> Thrown w')"

definition notAFolderWarning :: "TAbstractFile option \<Rightarrow> jsstring" where
  "notAFolderWarning sourceFolder' =
     lit ''Auto Archive: Configured source [''
     @ (case sourceFolder' of None \<Rightarrow> lit ''undefined'' | Some e \<Rightarrow> pathOf e)
     @ lit ''] is not a folder''"

fun processVault_configs ::
  "'s Vault \<Rightarrow> ArchiveConfig list \<Rightarrow> 's Plugin \<Rightarrow> 's Plugin outcome" where
  "processVault_configs V [] w = Returned w"
| "processVault_configs V (archiveConfig # archiveConfigs) w =
     (let sourceFolder' = getAbstractFileByPath V (app w) (sourceFolder archiveConfig);
          w1 = logCall (CallGetAbstractFileByPath (sourceFolder archiveConfig)) w
      in case sourceFolder' of
           Some (Folder p ch) \<Rightarrow>
             (case processVault_files V archiveConfig
                     (getMarkdownFilesInFolderRecursive ch) w1 of
                Returned w2 \<Rightarrow> processVault_configs V archiveConfigs w2
              | Thrown w2 \<Rightarrow> Thrown w2)
         | _ \<Rightarrow> processVault_configs V archiveConfigs
                  (w1\<lparr>console := console w1 @ [notAFolderWarning sourceFolder']\<rparr>))"

definition processVault :: "'s Vault \<Rightarrow> 's Plugin \<Rightarrow> 's Plugin outcome" where
  "processVault V w = processVault_configs V (getValidArchiveConfigs w) w"

section \<open>A reference vault\<close>

text \<open>
  Modelled from the spec: the file-tree store of section 6 (\<open>resolve\<close>, \<open>copy\<close>, \<open>delete\<close>,
  \<open>createFolder\<close>), which is Obsidian's and not part of the plugin's source. It is one
  instance of the interface above, used to run the engine on concrete vaults; the general
  statements below are about every instance. The state is the tree below the vault's root
  and the clock. \<open>copy\<close> fails when the destination is occupied, the source is gone or the
  destination's folder is missing; \<open>delete\<close> removes the entity with everything below it
  and fails when nothing is there; \<open>createFolder\<close> fails when the path exists and creates
  every missing folder on the way otherwise.
\<close>

record RefState =
  tree :: "TAbstractFile list"
  clock :: int

fun findPath :: "jsstring \<Rightarrow> TAbstractFile list \<Rightarrow> TAbstractFile option" where
  "findPath p [] = None"
| "findPath p (File f # rest) = (if path f = p then Some (File f) else findPath p rest)"
| "findPath p (Folder q ch # rest) =
     (if q = p then Some (Folder q ch)
      else (case findPath p ch of Some e \<Rightarrow> Some e | None \<Rightarrow> findPath p rest))"

fun removePath :: "jsstring \<Rightarrow> TAbstractFile list \<Rightarrow> TAbstractFile list" where
  "removePath p [] = []"
| "removePath p (File f # rest) =
     (if path f = p then removePath p rest else File f # removePath p rest)"
| "removePath p (Folder q ch # rest) =
     (if q = p then removePath p rest else Folder q (removePath p ch) # removePath p rest)"

fun insertUnder :: "jsstring \<Rightarrow> TAbstractFile \<Rightarrow> TAbstractFile list \<Rightarrow> TAbstractFile list" where
  "insertUnder par e [] = []"
| "insertUnder par e (File f # rest) = File f # insertUnder par e rest"
| "insertUnder par e (Folder q ch # rest) =
     (if q = par then Folder q (ch @ [e]) # rest
      else Folder q (insertUnder par e ch) # insertUnder par e rest)"

definition parentPath :: "jsstring \<Rightarrow> jsstring" where
  "parentPath p = (if contains p (lit ''/'') then slice p 0 (lastIndexOf p (lit ''/'')) else [])"

definition baseName :: "jsstring \<Rightarrow> jsstring" where
  "baseName p = slice_from p (lastIndexOf p (lit ''/'') + 1)"

definition addEntity :: "TAbstractFile \<Rightarrow> TAbstractFile list \<Rightarrow> TAbstractFile list" where
  "addEntity e t =
     (if parentPath (pathOf e) = [] then t @ [e] else insertUnder (parentPath (pathOf e)) e t)"

definition ref_delete :: "RefState \<Rightarrow> TAbstractFile \<Rightarrow> bool \<Rightarrow> RefState outcome" where
  "ref_delete s e force =
     (if findPath (pathOf e) (tree s) = None then Thrown s
      else Returned (s\<lparr>tree := removePath (pathOf e) (tree s)\<rparr>))"

definition ref_copy :: "RefState \<Rightarrow> TFile \<Rightarrow> jsstring \<Rightarrow> RefState outcome" where
  "ref_copy s file dest =
     (if findPath dest (tree s) \<noteq> None \<or> findPath (path file) (tree s) = None
         \<or> (parentPath dest \<noteq> [] \<and> findPath (parentPath dest) (tree s) = None)
      then Thrown s
      else Returned (s\<lparr>tree := addEntity
                       (File \<lparr>path = dest, name = baseName dest, ctime = clock s\<rparr>) (tree s)\<rparr>))"

definition makeFolder :: "jsstring \<Rightarrow> TAbstractFile list \<Rightarrow> TAbstractFile list" where
  "makeFolder p t = (if findPath p t = None then addEntity (Folder p []) t else t)"

definition ref_createFolder :: "RefState \<Rightarrow> jsstring \<Rightarrow> RefState outcome" where
  "ref_createFolder s p =
     (let segments = splitPathString p
      in if segments = [] \<or> findPath (join segments (lit ''/'')) (tree s) \<noteq> None then Thrown s
         else Returned (s\<lparr>tree := foldl (\<lambda>t k. makeFolder (join (take k segments) (lit ''/'')) t)
                                      (tree s) [1 ..< Suc (length segments)]\<rparr>))"

definition refVault :: "RefState Vault" where
  "refVault =
     \<lparr>getAbstractFileByPath = (\<lambda>s p. findPath p (tree s)),
      delete = ref_delete,
      copy = ref_copy,
      createFolder = ref_createFolder,
      getTime = clock\<rparr>"

section \<open>Notions of the specification\<close>

text \<open>
  The specification's words for what \<open>joinPaths\<close> strips, to compare with the loops of the
  code: the leading, respectively trailing, run of slashes is dropped.
\<close>

definition stripLeadingSlashes :: "jsstring \<Rightarrow> jsstring" where
  "stripLeadingSlashes s = dropWhile (\<lambda>c. c = SLASH) s"

definition stripTrailingSlashes :: "jsstring \<Rightarrow> jsstring" where
  "stripTrailingSlashes s = rev (dropWhile (\<lambda>c. c = SLASH) (rev s))"

text \<open>
  The prefix-anchored strip that the specification contrasts with \<open>getFilePathInSourceFolder\<close>:
  the path relative to the source root, defined only for a path that begins with it.
\<close>

definition prefixAnchoredStrip :: "jsstring \<Rightarrow> jsstring \<Rightarrow> jsstring option" where
  "prefixAnchoredStrip filePath root =
     (if startsWith filePath root then Some (drop (length root) filePath) else None)"

text \<open>
  The prune walk in the specification's words: given the folder paths to visit, in order,
  look each one up and delete it if and only if it resolves to a folder with no children.
  \<open>visitedPaths\<close> lists the paths that \<open>k\<close> rounds of the loop of \<open>deleteEmptyFolders\<close> build
  from the source folder and the remaining segments; \<open>foldersBetween\<close> lists the folders
  strictly between a root and a file that lies below the folder segments \<open>segs\<close> of the
  root, deepest first.
\<close>

fun pruneWalk :: "'s Vault \<Rightarrow> jsstring list \<Rightarrow> 's Plugin \<Rightarrow> 's Plugin outcome" where
  "pruneWalk V [] w = Returned w"
| "pruneWalk V (p # ps) w =
     (case getAbstractFileByPath V (app w) p of
        Some (Folder q ch) \<Rightarrow>
          (if ch = [] then
             (case vault_delete V (Folder q ch) True (logCall (CallGetAbstractFileByPath p) w) of
                Returned w' \<Rightarrow> pruneWalk V ps w'
              | Thrown w' \<Rightarrow> Thrown w')
           else pruneWalk V ps (logCall (CallGetAbstractFileByPath p) w))
      | _ \<Rightarrow> pruneWalk V ps (logCall (CallGetAbstractFileByPath p) w))"

fun visitedPaths :: "jsstring \<Rightarrow> jsstring list \<Rightarrow> nat \<Rightarrow> jsstring list" where
  "visitedPaths root parts 0 = []"
| "visitedPaths root parts (Suc k) =
     joinPaths root (join parts (lit ''/'')) # visitedPaths root (butlast parts) k"

definition foldersBetween :: "jsstring \<Rightarrow> jsstring list \<Rightarrow> jsstring list" where
  "foldersBetween root segs =
     map (\<lambda>k. root @ [SLASH] @ join (take k segs) [SLASH]) (rev [1 ..< Suc (length segs)])"

text \<open>
  What the engine relies on when it deletes: after \<open>delete\<close> has returned, the entity's path
  resolves to nothing, and no path that resolved to nothing before resolves to something.
\<close>

definition deleteContract :: "'s Vault \<Rightarrow> bool" where
  "deleteContract V =
     (\<forall>s e force s'. delete V s e force = Returned s' \<longrightarrow>
        getAbstractFileByPath V s' (pathOf e) = None
        \<and> (\<forall>p. getAbstractFileByPath V s p = None \<longrightarrow> getAbstractFileByPath V s' p = None))"

fun map_outcome :: "('a \<Rightarrow> 'b) \<Rightarrow> 'a outcome \<Rightarrow> 'b outcome" where
  "map_outcome g (Returned x) = Returned (g x)"
| "map_outcome g (Thrown x) = Thrown (g x)"

section \<open>The example of the specification\<close>

text \<open>
  The vault of the specification's testable properties: the note
  \<open>Notes/2023/December/31.md\<close>, created long before the clock's time, an empty folder
  \<open>Archive\<close>, and the rule that archives \<open>Notes\<close> into \<open>Archive\<close> after 30 days.
\<close>

definition notesFile :: TFile where
  "notesFile = \<lparr>path = lit ''Notes/2023/December/31.md'', name = lit ''31.md'', ctime = 1000\<rparr>"

definition notesRule :: ArchiveConfig where
  "notesRule =
     \<lparr>sourceFolder = lit ''Notes'', destFolder = lit ''Archive'',
      maintainFolderStructure = True, deleteEmptyFolders = True, days = 30\<rparr>"

definition notesVault :: RefState where
  "notesVault =
     \<lparr>tree =
        [Folder (lit ''Notes'')
           [Folder (lit ''Notes/2023'')
              [Folder (lit ''Notes/2023/December'') [File notesFile]]],
         Folder (lit ''Archive'') []],
      clock = 1700000000000\<rparr>"

definition notesPlugin :: "RefState Plugin" where
  "notesPlugin = \<lparr>settings = [notesRule], app = notesVault, calls = [], console = []\<rparr>"

text \<open>
  A vault in which a folder name begins with a space: \<open>Notes/ x\<close>, from which the note
  \<open>Notes/ x/a.md\<close> has just been archived, beside an empty folder \<open>Notes/x\<close>.
\<close>

definition spacedFile :: TFile where
  "spacedFile = \<lparr>path = lit ''Notes/ x/a.md'', name = lit ''a.md'', ctime = 1000\<rparr>"

definition spacedPlugin :: "RefState Plugin" where
  "spacedPlugin =
     \<lparr>settings = [notesRule],
      app = \<lparr>tree = [Folder (lit ''Notes'')
                       [Folder (lit ''Notes/ x'') [], Folder (lit ''Notes/x'') []]],
             clock = 1700000000000\<rparr>,
      calls = [], console = []\<rparr>"

text \<open>
  A rule on the vault's root. Obsidian's root folder has the path \<open>/\<close>, and the paths of
  the files below it carry no leading slash: the note \<open>Notes/2023/a.md\<close> lies two folders
  below the root, and its path relative to the root is \<open>Notes/2023/a.md\<close> itself.
\<close>

definition rootRule :: ArchiveConfig where
  "rootRule =
     \<lparr>sourceFolder = lit ''/'', destFolder = lit ''Archive'',
      maintainFolderStructure = True, deleteEmptyFolders = True, days = 30\<rparr>"

definition nestedFile :: TFile where
  "nestedFile = \<lparr>path = lit ''Notes/2023/a.md'', name = lit ''a.md'', ctime = 1000\<rparr>"

definition nestedPlugin :: "RefState Plugin" where
  "nestedPlugin =
     \<lparr>settings = [rootRule],
      app = \<lparr>tree = [Folder (lit ''Notes'') [Folder (lit ''Notes/2023'') [File nestedFile]],
                     Folder (lit ''Archive'') []],
             clock = 1700000000000\<rparr>,
      calls = [], console = []\<rparr>"

section \<open>Properties of the string methods and of the loops of joinPaths\<close>

lemma lit_slash: "lit ''/'' = [SLASH]" by (simp add: lit_def)

lemma endsWith_slash: "endsWith p [SLASH] \<longleftrightarrow> p \<noteq> [] \<and> last p = SLASH"
proof (cases p rule: rev_cases)
  case Nil then show ?thesis by (simp add: endsWith_def)
next
  case (snoc ys y) then show ?thesis by (auto simp: endsWith_def)
qed

lemma slice_butlast: "slice p 0 (int (length p) - 1) = butlast p"
  by (cases p rule: rev_cases) (auto simp: slice_def Let_def)

lemma startsWith_slash: "startsWith p [SLASH] \<longleftrightarrow> p \<noteq> [] \<and> hd p = SLASH"
  by (cases p) (auto simp: startsWith_def)

lemma slice_from_tl: "slice_from p 1 = tl p"
  by (cases p) (auto simp: slice_from_def slice_def Let_def)

lemma stripEnd_eq: "joinPaths_stripEnd p = rev (dropWhile (\<lambda>c. c = SLASH) (rev p))"
proof (induction p rule: joinPaths_stripEnd.induct)
  case (1 p)
  have step: "joinPaths_stripEnd p =
    (if endsWith p [SLASH] then joinPaths_stripEnd (butlast p) else p)"
    by (subst joinPaths_stripEnd.simps) (simp add: slice_butlast lit_slash)
  show ?case
  proof (cases "endsWith p [SLASH]")
    case True
    then obtain ys where p: "p = ys @ [SLASH]"
      by (cases p rule: rev_cases) (auto simp: endsWith_slash)
    from True 1 have "joinPaths_stripEnd (butlast p) = rev (dropWhile (\<lambda>c. c = SLASH) (rev (butlast p)))"
      by (simp add: slice_butlast lit_slash)
    with True p step show ?thesis by simp
  next
    case False
    then have "p = [] \<or> last p \<noteq> SLASH" by (simp add: endsWith_slash)
    then have "dropWhile (\<lambda>c. c = SLASH) (rev p) = rev p"
      by (cases p rule: rev_cases) auto
    with False step show ?thesis by simp
  qed
qed

lemma stripStart_eq: "joinPaths_stripStart p = dropWhile (\<lambda>c. c = SLASH) p"
proof (induction p rule: joinPaths_stripStart.induct)
  case (1 p)
  have step: "joinPaths_stripStart p =
    (if startsWith p [SLASH] then joinPaths_stripStart (tl p) else p)"
    by (subst joinPaths_stripStart.simps) (simp add: slice_from_tl lit_slash)
  show ?case
  proof (cases "startsWith p [SLASH]")
    case True
    then obtain ys where p: "p = SLASH # ys"
      by (cases p) (auto simp: startsWith_slash)
    from True 1 have "joinPaths_stripStart (tl p) = dropWhile (\<lambda>c. c = SLASH) (tl p)"
      by (simp add: slice_from_tl lit_slash)
    with True p step show ?thesis by simp
  next
    case False
    then have "dropWhile (\<lambda>c. c = SLASH) p = p"
      by (cases p) (auto simp: startsWith_slash)
    with False step show ?thesis by simp
  qed
qed

section \<open>The age test\<close>

text \<open>
  Claim C2. The eligibility test compares strictly against the cutoff instant
  \<open>now - days * 86400000\<close>: a file created exactly at the cutoff is not eligible, a file
  created one millisecond earlier is, and in general a file is eligible exactly when its
  creation instant is before the cutoff. The instants are valid \<open>Date\<close> time values and
  \<open>days\<close> is at least \<open>MIN_DAYS\<close>, as the settings tab enforces.
\<close>

theorem eligibility_boundary:
  assumes "isValidTime today" and "MIN_DAYS \<le> days c" and "isValidTime (ctime f)"
  shows "(ctime f = today - NUM_MS_IN_DAY * days c \<longrightarrow> \<not> shouldFileBeArchived today f c)
       \<and> (ctime f = today - NUM_MS_IN_DAY * days c - 1 \<longrightarrow> shouldFileBeArchived today f c)
       \<and> (shouldFileBeArchived today f c \<longleftrightarrow> ctime f < today - NUM_MS_IN_DAY * days c)"
  using assms
  by (auto simp: shouldFileBeArchived_def date_less_def Date_def isValidTime_def
                 MIN_DAYS_def NUM_MS_IN_DAY_def Let_def split: if_splits option.splits)

theorem eligibility_boundary_witness:
  "isValidTime 1700000000000
   \<and> MIN_DAYS \<le> days \<lparr>sourceFolder = lit ''Notes'', destFolder = lit ''Archive'',
        maintainFolderStructure = True, deleteEmptyFolders = True, days = 30\<rparr>
   \<and> \<not> shouldFileBeArchived 1700000000000
         \<lparr>path = lit ''Notes/a.md'', name = lit ''a.md'', ctime = 1697408000000\<rparr>
         \<lparr>sourceFolder = lit ''Notes'', destFolder = lit ''Archive'',
          maintainFolderStructure = True, deleteEmptyFolders = True, days = 30\<rparr>
   \<and> shouldFileBeArchived 1700000000000
         \<lparr>path = lit ''Notes/a.md'', name = lit ''a.md'', ctime = 1697407999999\<rparr>
         \<lparr>sourceFolder = lit ''Notes'', destFolder = lit ''Archive'',
          maintainFolderStructure = True, deleteEmptyFolders = True, days = 30\<rparr>"
  using eligibility_boundary [of 1700000000000
          "\<lparr>sourceFolder = lit ''Notes'', destFolder = lit ''Archive'',
            maintainFolderStructure = True, deleteEmptyFolders = True, days = 30\<rparr>"
          "\<lparr>path = lit ''Notes/a.md'', name = lit ''a.md'', ctime = 1697408000000\<rparr>"]
        eligibility_boundary [of 1700000000000
          "\<lparr>sourceFolder = lit ''Notes'', destFolder = lit ''Archive'',
            maintainFolderStructure = True, deleteEmptyFolders = True, days = 30\<rparr>"
          "\<lparr>path = lit ''Notes/a.md'', name = lit ''a.md'', ctime = 1697407999999\<rparr>"]
  by (simp add: isValidTime_def Date_def MIN_DAYS_def NUM_MS_IN_DAY_def)

text \<open>
  Claim C10. Eligibility is monotone in the age threshold: a file that is eligible under a
  rule with \<open>days = d\<close> is eligible under the same rule with any positive \<open>days\<close> up to \<open>d\<close>.
\<close>

theorem eligibility_monotone:
  assumes "isValidTime today" and "shouldFileBeArchived today f c"
      and "0 < d'" and "d' \<le> days c"
  shows "shouldFileBeArchived today f (c\<lparr>days := d'\<rparr>)"
  using assms
  by (auto simp: shouldFileBeArchived_def date_less_def Date_def isValidTime_def
                 NUM_MS_IN_DAY_def Let_def split: if_splits option.splits)

theorem eligibility_monotone_witness:
  "isValidTime 1700000000000
   \<and> shouldFileBeArchived 1700000000000
         \<lparr>path = lit ''Notes/a.md'', name = lit ''a.md'', ctime = 1000\<rparr>
         \<lparr>sourceFolder = lit ''Notes'', destFolder = lit ''Archive'',
          maintainFolderStructure = True, deleteEmptyFolders = True, days = 30\<rparr>
   \<and> shouldFileBeArchived 1700000000000
         \<lparr>path = lit ''Notes/a.md'', name = lit ''a.md'', ctime = 1000\<rparr>
         \<lparr>sourceFolder = lit ''Notes'', destFolder = lit ''Archive'',
          maintainFolderStructure = True, deleteEmptyFolders = True, days = 7\<rparr>"
  using eligibility_monotone [of 1700000000000
          "\<lparr>path = lit ''Notes/a.md'', name = lit ''a.md'', ctime = 1000\<rparr>"
          "\<lparr>sourceFolder = lit ''Notes'', destFolder = lit ''Archive'',
            maintainFolderStructure = True, deleteEmptyFolders = True, days = 30\<rparr>" 7]
  by (simp add: isValidTime_def Date_def shouldFileBeArchived_def date_less_def NUM_MS_IN_DAY_def)

section \<open>joinPaths and getFilePathInSourceFolder\<close>





lemma trim_Nil: "trim [] = []"
  by (simp add: trim_def)

lemma dropWhile_fixed: "(xs = [] \<or> \<not> P (hd xs)) \<Longrightarrow> dropWhile P xs = xs"
  by (cases xs) auto

lemma dropWhile_hd: "dropWhile P xs = [] \<or> \<not> P (hd (dropWhile P xs))"
  using hd_dropWhile by blast


lemma trim_fixed:
  assumes "a = [] \<or> (\<not> isWhiteSpace (hd a) \<and> \<not> isWhiteSpace (last a))"
  shows "trim a = a"
proof (cases "a = []")
  case True then show ?thesis by (simp add: trim_def)
next
  case False
  with assms have h: "\<not> isWhiteSpace (hd a)" and l: "\<not> isWhiteSpace (last a)" by auto
  from False h have "dropWhile isWhiteSpace a = a" by (simp add: dropWhile_fixed)
  moreover from False l have "dropWhile isWhiteSpace (rev a) = rev a"
    by (simp add: dropWhile_fixed hd_rev)
  ultimately show ?thesis by (simp add: trim_def)
qed





lemma stripEnd_last: "joinPaths_stripEnd x = [] \<or> last (joinPaths_stripEnd x) \<noteq> SLASH"
proof -
  define d where "d = dropWhile (\<lambda>c. c = SLASH) (rev x)"
  have "d = [] \<or> hd d \<noteq> SLASH" unfolding d_def using hd_dropWhile by blast
  then show ?thesis by (auto simp: stripEnd_eq d_def [symmetric] last_rev)
qed

lemma stripEnd_fixed: "x = [] \<or> last x \<noteq> SLASH \<Longrightarrow> joinPaths_stripEnd x = x"
  by (cases x rule: rev_cases) (auto simp: stripEnd_eq)

lemma stripEnd_Nil: "joinPaths_stripEnd [] = []"
  by (simp add: stripEnd_eq)

lemma stripStart_Nil: "joinPaths_stripStart [] = []"
  by (simp add: stripStart_eq)

lemma joinPaths_last: "joinPaths p1 p2 = [] \<or> last (joinPaths p1 p2) \<noteq> SLASH"
  using stripEnd_last [of "trim p1"] stripEnd_last [of "joinPaths_stripStart (trim p2)"]
  by (auto simp: joinPaths_def Let_def lit_slash)

lemma joinPaths_empty_right: "joinPaths r [] = joinPaths_stripEnd (trim r)"
  by (simp add: joinPaths_def Let_def trim_Nil stripEnd_Nil stripStart_Nil)

lemma length_dropWhile_eq: "length (dropWhile P xs) = length xs \<Longrightarrow> dropWhile P xs = xs"
proof (cases xs)
  case Nil
  then show ?thesis by simp
next
  case (Cons y ys)
  assume h: "length (dropWhile P xs) = length xs"
  have "length (dropWhile P ys) \<le> length ys" by (rule length_dropWhile_le)
  with h Cons have "\<not> P y" by (auto split: if_splits)
  with Cons show ?thesis by simp
qed

lemma length_trim_le: "length (trim r) \<le> length r"
proof -
  have "length (dropWhile isWhiteSpace (rev (dropWhile isWhiteSpace r)))
          \<le> length (rev (dropWhile isWhiteSpace r))"
    by (rule length_dropWhile_le)
  moreover have "length (dropWhile isWhiteSpace r) \<le> length r"
    by (rule length_dropWhile_le)
  ultimately show ?thesis by (simp add: trim_def)
qed

lemma length_trim_eq: assumes "length (trim r) = length r" shows "trim r = r"
proof -
  have "length (dropWhile isWhiteSpace (rev (dropWhile isWhiteSpace r)))
          \<le> length (rev (dropWhile isWhiteSpace r))"
    by (rule length_dropWhile_le)
  then have "length (dropWhile isWhiteSpace (rev (dropWhile isWhiteSpace r)))
          \<le> length (dropWhile isWhiteSpace r)"
    by simp
  moreover have "length (dropWhile isWhiteSpace r) \<le> length r"
    by (rule length_dropWhile_le)
  moreover from assms have "length (dropWhile isWhiteSpace (rev (dropWhile isWhiteSpace r))) = length r"
    by (simp add: trim_def)
  ultimately have 1: "length (dropWhile isWhiteSpace r) = length r"
    and 2: "length (dropWhile isWhiteSpace (rev (dropWhile isWhiteSpace r)))
          = length (rev (dropWhile isWhiteSpace r))" by auto
  from 1 have "dropWhile isWhiteSpace r = r" by (rule length_dropWhile_eq)
  moreover from 2 have "dropWhile isWhiteSpace (rev (dropWhile isWhiteSpace r))
      = rev (dropWhile isWhiteSpace r)" by (rule length_dropWhile_eq)
  ultimately show ?thesis by (simp add: trim_def)
qed

lemma length_stripEnd_le: "length (joinPaths_stripEnd x) \<le> length x"
proof -
  have "length (dropWhile (\<lambda>c. c = SLASH) (rev x)) \<le> length (rev x)"
    by (rule length_dropWhile_le)
  then show ?thesis by (simp add: stripEnd_eq)
qed

lemma joinPaths_idem_iff:
  "joinPaths (joinPaths p1 p2) [] = joinPaths p1 p2 \<longleftrightarrow> trim (joinPaths p1 p2) = joinPaths p1 p2"
proof
  assume t: "trim (joinPaths p1 p2) = joinPaths p1 p2"
  show "joinPaths (joinPaths p1 p2) [] = joinPaths p1 p2"
    using joinPaths_last [of p1 p2] by (simp add: joinPaths_empty_right t stripEnd_fixed)
next
  assume "joinPaths (joinPaths p1 p2) [] = joinPaths p1 p2"
  then have "length (joinPaths_stripEnd (trim (joinPaths p1 p2))) = length (joinPaths p1 p2)"
    by (simp add: joinPaths_empty_right)
  with length_stripEnd_le [of "trim (joinPaths p1 p2)"] length_trim_le [of "joinPaths p1 p2"]
  have "length (trim (joinPaths p1 p2)) = length (joinPaths p1 p2)" by simp
  then show "trim (joinPaths p1 p2) = joinPaths p1 p2" by (rule length_trim_eq)
qed

lemma set_stripEnd: "set (joinPaths_stripEnd x) \<subseteq> set x"
  by (auto simp: stripEnd_eq dest: set_dropWhileD)

lemma set_stripStart: "set (joinPaths_stripStart x) \<subseteq> set x"
  by (auto simp: stripStart_eq dest: set_dropWhileD)

lemma trim_no_ws:
  assumes "\<forall>c\<in>set x. \<not> isWhiteSpace c"
  shows "trim x = x"
proof (cases "x = []")
  case True
  then show ?thesis by (simp add: trim_Nil)
next
  case False
  then have "hd x \<in> set x" "last x \<in> set x" by simp_all
  with assms have "\<not> isWhiteSpace (hd x) \<and> \<not> isWhiteSpace (last x)" by blast
  then show ?thesis by (intro trim_fixed) simp
qed

lemma set_joinPaths: "set (joinPaths p1 p2) \<subseteq> set (trim p1) \<union> set (trim p2) \<union> {SLASH}"
  using set_stripEnd [of "trim p1"] set_stripEnd [of "joinPaths_stripStart (trim p2)"]
        set_stripStart [of "trim p2"]
  by (auto simp: joinPaths_def Let_def lit_slash)

lemma slash_not_ws: "\<not> isWhiteSpace SLASH"
  by (simp add: isWhiteSpace_def)

lemma joinPaths_unfolded:
  "joinPaths p1 p2 =
     (let a = stripTrailingSlashes (trim p1);
          b = stripTrailingSlashes (stripLeadingSlashes (trim p2))
      in if a = [] \<and> b = [] then [] else if a = [] then b else if b = [] then a
         else a @ [SLASH] @ b)"
  by (simp only: joinPaths_def stripTrailingSlashes_def stripLeadingSlashes_def
        stripEnd_eq stripStart_eq lit_slash length_0_conv Let_def)

lemma joinPaths_no_ws:
  assumes h: "\<forall>c\<in>set p1 \<union> set p2. \<not> isWhiteSpace c"
  shows "\<forall>c\<in>set (joinPaths p1 p2). \<not> isWhiteSpace c"
proof
  fix c
  assume c: "c \<in> set (joinPaths p1 p2)"
  from h have "trim p1 = p1" "trim p2 = p2" by (auto intro: trim_no_ws)
  with set_joinPaths [of p1 p2] have "set (joinPaths p1 p2) \<subseteq> set p1 \<union> set p2 \<union> {SLASH}"
    by simp
  with c have "c \<in> set p1 \<union> set p2 \<or> c = SLASH" by blast
  then show "\<not> isWhiteSpace c"
  proof
    assume "c \<in> set p1 \<union> set p2"
    with h show ?thesis by blast
  next
    assume "c = SLASH"
    then show ?thesis by (simp only: slash_not_ws not_False_eq_True)
  qed
qed

text \<open>
  Claim C6, as amended. \<open>joinPaths\<close> strips the trailing slashes of its trimmed first
  argument and the leading and trailing slashes of its trimmed second argument, returns the
  empty string when both are then empty, the other one when exactly one is empty, and joins
  them with a single slash otherwise; \<open>joinPaths("", "")\<close> is \<open>""\<close>. Joining the result with
  the empty string gives the result back exactly when the result has no leading or trailing
  whitespace, in particular whenever the two arguments contain no whitespace.
\<close>

theorem joinPaths_description:
  "joinPaths p1 p2 =
     (let a = stripTrailingSlashes (trim p1);
          b = stripTrailingSlashes (stripLeadingSlashes (trim p2))
      in if a = [] \<and> b = [] then [] else if a = [] then b else if b = [] then a
         else a @ [SLASH] @ b)
   \<and> joinPaths [] [] = []
   \<and> ((joinPaths (joinPaths p1 p2) [] = joinPaths p1 p2)
        = (trim (joinPaths p1 p2) = joinPaths p1 p2))
   \<and> ((\<forall>c\<in>set p1 \<union> set p2. \<not> isWhiteSpace c) \<longrightarrow>
         joinPaths (joinPaths p1 p2) [] = joinPaths p1 p2)"
proof (intro conjI impI)
  show "joinPaths p1 p2 =
     (let a = stripTrailingSlashes (trim p1);
          b = stripTrailingSlashes (stripLeadingSlashes (trim p2))
      in if a = [] \<and> b = [] then [] else if a = [] then b else if b = [] then a
         else a @ [SLASH] @ b)"
    by (rule joinPaths_unfolded)
  show "joinPaths [] [] = []"
    by (simp add: joinPaths_empty_right trim_Nil stripEnd_Nil)
  show "(joinPaths (joinPaths p1 p2) [] = joinPaths p1 p2)
        = (trim (joinPaths p1 p2) = joinPaths p1 p2)"
    by (rule joinPaths_idem_iff)
  assume "\<forall>c\<in>set p1 \<union> set p2. \<not> isWhiteSpace c"
  then have "\<forall>c\<in>set (joinPaths p1 p2). \<not> isWhiteSpace c" by (rule joinPaths_no_ws)
  then have "trim (joinPaths p1 p2) = joinPaths p1 p2" by (rule trim_no_ws)
  then show "joinPaths (joinPaths p1 p2) [] = joinPaths p1 p2"
    by (simp only: joinPaths_idem_iff)
qed

theorem joinPaths_description_witness:
  "joinPaths (joinPaths (lit ''a/'') (lit ''/b/'')) [] = joinPaths (lit ''a/'') (lit ''/b/'')
   \<and> joinPaths (lit ''a/'') (lit ''/b/'') = lit ''a/b''"
proof -
  have h: "\<forall>c\<in>set (lit ''a/'') \<union> set (lit ''/b/''). \<not> isWhiteSpace c"
    by (simp add: lit_def isWhiteSpace_def)
  have e: "joinPaths (lit ''a/'') (lit ''/b/'') = lit ''a/b''"
    by code_simp
  from joinPaths_description [of "lit ''a/''" "lit ''/b/''"] h
  have "joinPaths (joinPaths (lit ''a/'') (lit ''/b/'')) [] = joinPaths (lit ''a/'') (lit ''/b/'')"
    by (elim conjE impE)
  with e show ?thesis by (intro conjI)
qed

text \<open>
  The idempotence of claim C6 fails as stated: whitespace that stood before a stripped slash
  ends the result, and the second call trims it. \<open>joinPaths("x /", "")\<close> is \<open>"x "\<close>, and
  \<open>joinPaths("x ", "")\<close> is \<open>"x"\<close>.
\<close>

theorem joinPaths_idempotence_counterexample:
  "joinPaths (joinPaths (lit ''x /'') (lit '''')) (lit '''') \<noteq> joinPaths (lit ''x /'') (lit '''')"
  by code_simp

lemma startsWith_iff: "startsWith s p \<longleftrightarrow> (\<exists>v. s = p @ v)"
proof
  assume "startsWith s p"
  then have "s = p @ drop (length p) s"
    unfolding startsWith_def by (metis append_take_drop_id)
  then show "\<exists>v. s = p @ v" ..
next
  assume "\<exists>v. s = p @ v"
  then show "startsWith s p" by (auto simp: startsWith_def)
qed

lemma replace_first_occurrence:
  assumes "s = u @ pat @ v"
      and "\<forall>u' v'. s = u' @ pat @ v' \<longrightarrow> length u \<le> length u'"
  shows "replace s pat rep = u @ rep @ v"
  using assms
proof (induction s arbitrary: u)
  case Nil
  then show ?case by simp
next
  case (Cons c cs)
  show ?case
  proof (cases "startsWith (c # cs) pat")
    case True
    then obtain v0 where v0: "c # cs = [] @ pat @ v0" by (auto simp: startsWith_iff)
    with Cons.prems(2) have "length u \<le> length ([]::jsstring)" by blast
    then have "u = []" by simp
    with Cons.prems(1) have "drop (length pat) (c # cs) = v" by simp
    with True \<open>u = []\<close> show ?thesis by simp
  next
    case False
    with Cons.prems(1) have "u \<noteq> []" by (auto simp: startsWith_iff)
    with Cons.prems(1) obtain u0 where u0: "u = c # u0" "cs = u0 @ pat @ v"
      by (cases u) auto
    have "\<forall>u' v'. cs = u' @ pat @ v' \<longrightarrow> length u0 \<le> length u'"
    proof (intro allI impI)
      fix u' v' assume "cs = u' @ pat @ v'"
      then have "c # cs = (c # u') @ pat @ v'" by simp
      with Cons.prems(2) have "length u \<le> length (c # u')" by blast
      with u0 show "length u0 \<le> length u'" by simp
    qed
    with Cons.IH [OF u0(2)] have "replace cs pat rep = u0 @ rep @ v" by blast
    with False u0 show ?thesis by simp
  qed
qed

lemma replace_no_occurrence:
  assumes "\<not> (\<exists>u v. s = u @ pat @ v)"
  shows "replace s pat rep = s"
  using assms
proof (induction s)
  case Nil
  then show ?case by auto
next
  case (Cons c cs)
  have 1: "\<not> startsWith (c # cs) pat"
  proof
    assume "startsWith (c # cs) pat"
    then obtain v where "c # cs = [] @ pat @ v" by (auto simp: startsWith_iff)
    with Cons.prems show False by blast
  qed
  have "\<not> (\<exists>u v. cs = u @ pat @ v)"
  proof
    assume "\<exists>u v. cs = u @ pat @ v"
    then obtain u v where "cs = u @ pat @ v" by blast
    then have "c # cs = (c # u) @ pat @ v" by simp
    with Cons.prems show False by blast
  qed
  with Cons.IH have "replace cs pat rep = cs" by blast
  with 1 show ?case by simp
qed

lemma replace_prefix: "replace (pat @ v) pat [] = v"
proof (cases "pat @ v")
  case Nil
  then show ?thesis by simp
next
  case (Cons a list)
  have "startsWith (pat @ v) pat" by (simp add: startsWith_def)
  with Cons have "replace (pat @ v) pat [] = drop (length pat) (pat @ v)" by simp
  then show ?thesis by simp
qed

text \<open>
  Claim C7, as amended. \<open>getFilePathInSourceFolder\<close> returns the file path with the first
  textual occurrence of the source folder string removed, and the path unchanged when the
  string does not occur. When the path begins with the source folder string, that occurrence
  is the prefix and the result is the prefix-anchored strip, whether or not the string recurs
  later in the path; an occurrence inside the path is removed only when the path does not
  begin with the string, as in \<open>"Daily/Notes/a.md"\<close> with source folder \<open>"Notes"\<close>.
\<close>

theorem getFilePathInSourceFolder_first_occurrence:
  "((path f = u @ sourceFolder c @ v
       \<and> (\<forall>u' v'. path f = u' @ sourceFolder c @ v' \<longrightarrow> length u \<le> length u'))
      \<longrightarrow> getFilePathInSourceFolder f c = u @ v)
   \<and> ((\<not> (\<exists>u' v'. path f = u' @ sourceFolder c @ v'))
      \<longrightarrow> getFilePathInSourceFolder f c = path f)
   \<and> (path f = sourceFolder c @ v
      \<longrightarrow> prefixAnchoredStrip (path f) (sourceFolder c) = Some (getFilePathInSourceFolder f c))
   \<and> replace (lit ''Daily/Notes/a.md'') (lit ''Notes'') [] = lit ''Daily//a.md''"
proof -
  have a: "getFilePathInSourceFolder f c = u @ v"
    if "path f = u @ sourceFolder c @ v"
       "\<forall>u' v'. path f = u' @ sourceFolder c @ v' \<longrightarrow> length u \<le> length u'"
    using replace_first_occurrence [OF that, of "[]"]
    by (simp add: getFilePathInSourceFolder_def)
  have b: "getFilePathInSourceFolder f c = path f"
    if "\<not> (\<exists>u' v'. path f = u' @ sourceFolder c @ v')"
    using replace_no_occurrence [OF that] by (simp add: getFilePathInSourceFolder_def)
  have c: "prefixAnchoredStrip (path f) (sourceFolder c) = Some (getFilePathInSourceFolder f c)"
    if "path f = sourceFolder c @ v"
    using that replace_prefix [of "sourceFolder c" v]
    by (simp add: getFilePathInSourceFolder_def prefixAnchoredStrip_def startsWith_def)
  have d: "replace (lit ''Daily/Notes/a.md'') (lit ''Notes'') [] = lit ''Daily//a.md''"
    by code_simp
  from a b c d show ?thesis by blast
qed

theorem getFilePathInSourceFolder_first_occurrence_witness:
  "path \<lparr>path = lit ''Notes/Notes/a.md'', name = lit ''a.md'', ctime = 0\<rparr>
     = [] @ sourceFolder \<lparr>sourceFolder = lit ''Notes'', destFolder = lit ''Archive'',
            maintainFolderStructure = True, deleteEmptyFolders = True, days = 30\<rparr>
          @ lit ''/Notes/a.md''
   \<and> getFilePathInSourceFolder
         \<lparr>path = lit ''Notes/Notes/a.md'', name = lit ''a.md'', ctime = 0\<rparr>
         \<lparr>sourceFolder = lit ''Notes'', destFolder = lit ''Archive'',
          maintainFolderStructure = True, deleteEmptyFolders = True, days = 30\<rparr>
       = lit ''/Notes/a.md''"
  using getFilePathInSourceFolder_first_occurrence
          [of "\<lparr>path = lit ''Notes/Notes/a.md'', name = lit ''a.md'', ctime = 0\<rparr>" "[]"
              "\<lparr>sourceFolder = lit ''Notes'', destFolder = lit ''Archive'',
                maintainFolderStructure = True, deleteEmptyFolders = True, days = 30\<rparr>"
              "lit ''/Notes/a.md''"]
  by (simp add: lit_def)

text \<open>
  The consequence drawn in claim C7 fails as stated: in \<open>"Notes/Notes/a.md"\<close> the source folder
  name \<open>"Notes"\<close> recurs, and the result \<open>"/Notes/a.md"\<close> is the path relative to the source
  root all the same.
\<close>

theorem getFilePathInSourceFolder_recurrence_counterexample:
  "contains (drop (length (lit ''Notes'')) (lit ''Notes/Notes/a.md'')) (lit ''Notes'')
   \<and> prefixAnchoredStrip (lit ''Notes/Notes/a.md'') (lit ''Notes'')
       = Some (getFilePathInSourceFolder
                 \<lparr>path = lit ''Notes/Notes/a.md'', name = lit ''a.md'', ctime = 0\<rparr>
                 \<lparr>sourceFolder = lit ''Notes'', destFolder = lit ''Archive'',
                  maintainFolderStructure = True, deleteEmptyFolders = True, days = 30\<rparr>)"
  by code_simp

section \<open>The loop of deleteEmptyFolders is the prune walk\<close>

lemma loop_step:
  "deleteEmptyFolders_loop V c i n parts w =
     (if i < n then
        (case getAbstractFileByPath V (app w)
                 (joinPaths (sourceFolder c) (join parts (lit ''/''))) of
           Some (Folder p ch) \<Rightarrow>
             (if length ch = 0 then
                (case vault_delete V (Folder p ch) True
                        (logCall (CallGetAbstractFileByPath
                           (joinPaths (sourceFolder c) (join parts (lit ''/'')))) w) of
                   Returned w2 \<Rightarrow> deleteEmptyFolders_loop V c (i + 1) n (butlast parts) w2
                 | Thrown w2 \<Rightarrow> Thrown w2)
              else deleteEmptyFolders_loop V c (i + 1) n (butlast parts)
                     (logCall (CallGetAbstractFileByPath
                        (joinPaths (sourceFolder c) (join parts (lit ''/'')))) w))
         | _ \<Rightarrow> deleteEmptyFolders_loop V c (i + 1) n (butlast parts)
                  (logCall (CallGetAbstractFileByPath
                     (joinPaths (sourceFolder c) (join parts (lit ''/'')))) w))
      else Returned w)"
  by (subst deleteEmptyFolders_loop.simps) (simp add: Let_def)

lemma loop_is_pruneWalk:
  "deleteEmptyFolders_loop V c i n parts w =
     pruneWalk V (visitedPaths (sourceFolder c) parts (n - i)) w"
proof (induction "n - i" arbitrary: i parts w)
  case 0
  then have "\<not> i < n" by simp
  with 0 show ?case by (subst loop_step) simp
next
  case (Suc k)
  then have lt: "i < n" and k: "k = n - Suc i" by simp_all
  from Suc.hyps(2) have v: "visitedPaths (sourceFolder c) parts (n - i) =
      joinPaths (sourceFolder c) (join parts (lit ''/''))
        # visitedPaths (sourceFolder c) (butlast parts) (n - Suc i)"
    by (metis k visitedPaths.simps(2))
  have ih: "deleteEmptyFolders_loop V c (Suc i) n ps w' =
      pruneWalk V (visitedPaths (sourceFolder c) ps (n - Suc i)) w'" for ps w'
    using Suc.hyps(1) [OF k] .
  show ?case
    by (subst loop_step)
       (simp add: lt v ih split: option.splits TAbstractFile.splits outcome.splits)
qed

lemma walk_is_pruneWalk:
  "deleteEmptyFolders_walk V f c w =
     pruneWalk V (visitedPaths (sourceFolder c)
        (splitPathString (getFolderFromPath (getFilePathInSourceFolder f c)))
        (length (splitPathString (getFolderFromPath (getFilePathInSourceFolder f c))))) w"
  by (simp add: deleteEmptyFolders_walk_def Let_def loop_is_pruneWalk)

section \<open>The scan\<close>

lemma logCall_fields [simp]:
  "app (logCall x w) = app w" "calls (logCall x w) = calls w @ [x]"
  "settings (logCall x w) = settings w" "console (logCall x w) = console w"
  by (simp_all add: logCall_def)

lemma logCall_settings: "logCall x (w\<lparr>settings := cs\<rparr>) = (logCall x w)\<lparr>settings := cs\<rparr>"
  by (simp add: logCall_def)

lemma vault_delete_cases:
  obtains s where "vault_delete V e force w = Returned (logCall (CallDelete e force) w\<lparr>app := s\<rparr>)"
                  "delete V (app w) e force = Returned s"
        | s where "vault_delete V e force w = Thrown (logCall (CallDelete e force) w\<lparr>app := s\<rparr>)"
                  "delete V (app w) e force = Thrown s"
  by (cases "delete V (app w) e force") (auto simp: vault_delete_def)

lemma vault_delete_fields [simp]:
  "calls (state_of (vault_delete V e force w)) = calls w @ [CallDelete e force]"
  "settings (state_of (vault_delete V e force w)) = settings w"
  "console (state_of (vault_delete V e force w)) = console w"
  by (cases "delete V (app w) e force"; simp add: vault_delete_def)+

lemma vault_delete_settings:
  "vault_delete V e force (w\<lparr>settings := cs\<rparr>)
     = map_outcome (\<lambda>x. x\<lparr>settings := cs\<rparr>) (vault_delete V e force w)"
  by (cases "delete V (app w) e force") (simp_all add: vault_delete_def logCall_def)

lemma copyFile_fields [simp]:
  "calls (copyFile V f p w) = calls w @ [CallCopy f p]"
  "settings (copyFile V f p w) = settings w"
  "console (copyFile V f p w) = console w"
  by (cases "copy V (app w) f p"; simp add: copyFile_def vault_copy_def)+

lemma copyFile_settings:
  "copyFile V f p (w\<lparr>settings := cs\<rparr>) = (copyFile V f p w)\<lparr>settings := cs\<rparr>"
  by (cases "copy V (app w) f p") (simp_all add: copyFile_def vault_copy_def logCall_def)

lemma createFoldersInPath_fields [simp]:
  "calls (createFoldersInPath V p w) = calls w @ [CallCreateFolder (getFolderFromPath p)]"
  "settings (createFoldersInPath V p w) = settings w"
  "console (createFoldersInPath V p w) = console w"
  by (cases "createFolder V (app w) (getFolderFromPath p)";
      simp add: createFoldersInPath_def vault_createFolder_def)+

lemma createFoldersInPath_settings:
  "createFoldersInPath V p (w\<lparr>settings := cs\<rparr>) = (createFoldersInPath V p w)\<lparr>settings := cs\<rparr>"
  by (cases "createFolder V (app w) (getFolderFromPath p)")
     (simp_all add: createFoldersInPath_def vault_createFolder_def logCall_def)

lemma pruneWalk_settings:
  "pruneWalk V ps (w\<lparr>settings := cs\<rparr>) = map_outcome (\<lambda>x. x\<lparr>settings := cs\<rparr>) (pruneWalk V ps w)"
proof (induction ps arbitrary: w)
  case Nil
  then show ?case by simp
next
  case (Cons p ps)
  show ?case
  proof (cases "getAbstractFileByPath V (app w) p")
    case None
    then show ?thesis by (simp add: Cons.IH logCall_settings)
  next
    case (Some e)
    show ?thesis
    proof (cases e)
      case (File g)
      with Some show ?thesis by (simp add: Cons.IH logCall_settings)
    next
      case (Folder q ch)
      show ?thesis
      proof (cases "ch = []")
        case False
        with Some Folder show ?thesis by (simp add: Cons.IH logCall_settings)
      next
        case True
        show ?thesis
          by (cases "vault_delete V (Folder q ch) True (logCall (CallGetAbstractFileByPath p) w)")
             (simp_all add: Some Folder True Cons.IH logCall_settings vault_delete_settings)
      qed
    qed
  qed
qed

lemma case_map_outcome:
  "(case map_outcome g r of Returned x \<Rightarrow> A x | Thrown x \<Rightarrow> B x)
     = (case r of Returned x \<Rightarrow> A (g x) | Thrown x \<Rightarrow> B (g x))"
  by (cases r) simp_all

lemma processSourceFile_settings:
  "processSourceFile V f c (w\<lparr>settings := cs\<rparr>)
     = map_outcome (\<lambda>x. x\<lparr>settings := cs\<rparr>) (processSourceFile V f c w)"
  by (simp add: processSourceFile_def Let_def createFoldersInPath_settings logCall_settings
        vault_delete_settings copyFile_settings walk_is_pruneWalk pruneWalk_settings
        case_map_outcome
      split: option.split outcome.split)

lemma processVault_files_settings:
  "processVault_files V c fs (w\<lparr>settings := cs\<rparr>)
     = map_outcome (\<lambda>x. x\<lparr>settings := cs\<rparr>) (processVault_files V c fs w)"
proof (induction fs arbitrary: w)
  case Nil
  then show ?case by simp
next
  case (Cons f fs)
  show ?case
    by (cases "processSourceFile V f c w")
       (simp_all add: processSourceFile_settings Cons.IH)
qed

lemma processVault_configs_settings:
  "processVault_configs V rules (w\<lparr>settings := cs\<rparr>)
     = map_outcome (\<lambda>x. x\<lparr>settings := cs\<rparr>) (processVault_configs V rules w)"
proof (induction rules arbitrary: w)
  case Nil
  then show ?case by simp
next
  case (Cons c rules)
  have warn: "(logCall x (w\<lparr>settings := cs\<rparr>))\<lparr>console := y\<rparr>
      = ((logCall x w)\<lparr>console := y\<rparr>)\<lparr>settings := cs\<rparr>" for x y
    by (simp add: logCall_def)
  show ?case
  proof (cases "getAbstractFileByPath V (app w) (sourceFolder c)")
    case None
    then show ?thesis by (simp add: Let_def warn Cons.IH)
  next
    case (Some e)
    show ?thesis
    proof (cases e)
      case (File g)
      with Some show ?thesis by (simp add: Let_def warn Cons.IH)
    next
      case (Folder q ch)
      show ?thesis
        by (cases "processVault_files V c (getMarkdownFilesInFolderRecursive ch)
                     (logCall (CallGetAbstractFileByPath (sourceFolder c)) w)")
           (simp_all add: Some Folder Let_def logCall_settings processVault_files_settings Cons.IH)
    qed
  qed
qed

lemma map_outcome_settings_twice:
  "map_outcome (\<lambda>x. x\<lparr>settings := cs\<rparr>) (map_outcome (\<lambda>x. x\<lparr>settings := cs'\<rparr>) r)
     = map_outcome (\<lambda>x. x\<lparr>settings := cs\<rparr>) r"
  by (cases r) simp_all

lemma settings_map_outcome:
  "settings (state_of (map_outcome (\<lambda>x. x\<lparr>settings := cs\<rparr>) r)) = cs"
  by (cases r) simp_all

lemma processVault_settings:
  "processVault V (w\<lparr>settings := cs\<rparr>)
     = map_outcome (\<lambda>x. x\<lparr>settings := cs\<rparr>)
         (processVault_configs V (getValidArchiveConfigs (w\<lparr>settings := cs\<rparr>)) w)"
  by (simp add: processVault_def processVault_configs_settings)

text \<open>
  Claim C5. A rule whose \<open>sourceFolder\<close> or \<open>destFolder\<close> is empty after trimming is not among
  the rules a scan processes. The scan with the rule in the settings makes the same vault
  calls, writes the same warnings and leaves the vault in the same state as the scan without
  it, so the rule causes no lookup, copy, delete or folder creation; a scan over that rule
  alone does nothing at all; and a scan leaves the stored rule list as it was.
\<close>

theorem invalid_rule_is_skipped:
  assumes "length (trim (sourceFolder c)) = 0 \<or> length (trim (destFolder c)) = 0"
  shows "c \<notin> set (getValidArchiveConfigs w)
       \<and> processVault V (w\<lparr>settings := cs1 @ c # cs2\<rparr>)
           = map_outcome (\<lambda>x. x\<lparr>settings := cs1 @ c # cs2\<rparr>)
               (processVault V (w\<lparr>settings := cs1 @ cs2\<rparr>))
       \<and> processVault V (w\<lparr>settings := [c]\<rparr>) = Returned (w\<lparr>settings := [c]\<rparr>)
       \<and> settings (state_of (processVault V w)) = settings w"
proof (intro conjI)
  show "c \<notin> set (getValidArchiveConfigs w)"
    using assms by (auto simp: getValidArchiveConfigs_def)
  have same: "getValidArchiveConfigs (w\<lparr>settings := cs1 @ c # cs2\<rparr>)
      = getValidArchiveConfigs (w\<lparr>settings := cs1 @ cs2\<rparr>)"
    using assms by (auto simp: getValidArchiveConfigs_def)
  show "processVault V (w\<lparr>settings := cs1 @ c # cs2\<rparr>)
           = map_outcome (\<lambda>x. x\<lparr>settings := cs1 @ c # cs2\<rparr>)
               (processVault V (w\<lparr>settings := cs1 @ cs2\<rparr>))"
    by (simp only: processVault_settings same map_outcome_settings_twice)
  have "getValidArchiveConfigs (w\<lparr>settings := [c]\<rparr>) = []"
    using assms by (auto simp: getValidArchiveConfigs_def)
  then show "processVault V (w\<lparr>settings := [c]\<rparr>) = Returned (w\<lparr>settings := [c]\<rparr>)"
    by (simp add: processVault_def)
  have "processVault V (w\<lparr>settings := settings w\<rparr>)
      = map_outcome (\<lambda>x. x\<lparr>settings := settings w\<rparr>)
         (processVault_configs V (getValidArchiveConfigs (w\<lparr>settings := settings w\<rparr>)) w)"
    by (rule processVault_settings)
  then have "settings (state_of (processVault V (w\<lparr>settings := settings w\<rparr>))) = settings w"
    by (simp only: settings_map_outcome)
  then show "settings (state_of (processVault V w)) = settings w" by simp
qed

theorem invalid_rule_is_skipped_witness:
  "processVault refVault (notesPlugin\<lparr>settings := [notesRule\<lparr>sourceFolder := lit ''  ''\<rparr>]\<rparr>)
     = Returned (notesPlugin\<lparr>settings := [notesRule\<lparr>sourceFolder := lit ''  ''\<rparr>]\<rparr>)"
proof -
  have "length (trim (sourceFolder (notesRule\<lparr>sourceFolder := lit ''  ''\<rparr>))) = 0"
    by (simp add: trim_def lit_def isWhiteSpace_def)
  then have "length (trim (sourceFolder (notesRule\<lparr>sourceFolder := lit ''  ''\<rparr>))) = 0
      \<or> length (trim (destFolder (notesRule\<lparr>sourceFolder := lit ''  ''\<rparr>))) = 0" ..
  from invalid_rule_is_skipped [OF this, of notesPlugin refVault "[]" "[]"]
  show ?thesis by (elim conjE)
qed

lemma processVault_configs_append:
  "processVault_configs V (xs @ ys) w =
     (case processVault_configs V xs w of
        Returned w' \<Rightarrow> processVault_configs V ys w'
      | Thrown w' \<Rightarrow> Thrown w')"
proof (induction xs arbitrary: w)
  case Nil
  then show ?case by simp
next
  case (Cons c xs)
  show ?case
  proof (cases "getAbstractFileByPath V (app w) (sourceFolder c)")
    case None
    then show ?thesis by (simp add: Let_def Cons.IH)
  next
    case (Some e)
    show ?thesis
    proof (cases e)
      case (File g)
      with Some show ?thesis by (simp add: Let_def Cons.IH)
    next
      case (Folder q ch)
      show ?thesis
        by (cases "processVault_files V c (getMarkdownFilesInFolderRecursive ch)
                     (logCall (CallGetAbstractFileByPath (sourceFolder c)) w)")
           (simp_all add: Some Folder Let_def Cons.IH)
    qed
  qed
qed

text \<open>
  Claim C8. When the scan reaches a valid rule whose \<open>sourceFolder\<close> does not resolve to a
  folder (it resolves to nothing, or to a file), it makes the one lookup, writes one warning,
  makes no other vault call and leaves the vault as it is, and goes on with the rules that
  follow.
\<close>

theorem unresolved_source_folder_is_skipped:
  assumes "getValidArchiveConfigs w = cs1 @ c # cs2"
      and "processVault_configs V cs1 w = Returned w1"
      and "\<forall>p ch. getAbstractFileByPath V (app w1) (sourceFolder c) \<noteq> Some (Folder p ch)"
  shows "processVault V w =
           processVault_configs V cs2
             (w1\<lparr>calls := calls w1 @ [CallGetAbstractFileByPath (sourceFolder c)],
                 console := console w1
                   @ [notAFolderWarning (getAbstractFileByPath V (app w1) (sourceFolder c))]\<rparr>)"
proof -
  have step: "processVault_configs V (c # cs2) w1 =
      processVault_configs V cs2
        ((logCall (CallGetAbstractFileByPath (sourceFolder c)) w1)
           \<lparr>console := console w1
              @ [notAFolderWarning (getAbstractFileByPath V (app w1) (sourceFolder c))]\<rparr>)"
    using assms(3)
    by (cases "getAbstractFileByPath V (app w1) (sourceFolder c)")
       (auto simp: Let_def split: TAbstractFile.splits)
  have "processVault V w = processVault_configs V (c # cs2) w1"
    by (simp add: processVault_def assms(1) processVault_configs_append assms(2))
  with step show ?thesis by (simp add: logCall_def)
qed

theorem unresolved_source_folder_is_skipped_witness:
  "processVault refVault (notesPlugin\<lparr>settings := [notesRule\<lparr>sourceFolder := lit ''Nope''\<rparr>]\<rparr>)
     = Returned (notesPlugin
         \<lparr>settings := [notesRule\<lparr>sourceFolder := lit ''Nope''\<rparr>],
          calls := [CallGetAbstractFileByPath (lit ''Nope'')],
          console := [lit ''Auto Archive: Configured source [undefined] is not a folder'']\<rparr>)"
proof -
  define c where "c = notesRule\<lparr>sourceFolder := lit ''Nope''\<rparr>"
  define w where "w = notesPlugin\<lparr>settings := [c]\<rparr>"
  have src: "sourceFolder c = lit ''Nope''" by (simp add: c_def)
  have h1: "getValidArchiveConfigs w = [] @ c # []"
    by (simp add: getValidArchiveConfigs_def w_def c_def notesRule_def trim_def lit_def
          isWhiteSpace_def)
  have h2: "processVault_configs refVault [] w = Returned w" by simp
  have none: "getAbstractFileByPath refVault (app w) (sourceFolder c) = None"
    unfolding src w_def by code_simp
  then have h3: "\<forall>p ch. getAbstractFileByPath refVault (app w) (sourceFolder c)
      \<noteq> Some (Folder p ch)" by simp
  have "processVault refVault w =
      Returned (w\<lparr>calls := calls w @ [CallGetAbstractFileByPath (sourceFolder c)],
                  console := console w @ [notAFolderWarning None]\<rparr>)"
    using unresolved_source_folder_is_skipped [OF h1 h2 h3] by (simp add: none)
  moreover have "notAFolderWarning None
      = lit ''Auto Archive: Configured source [undefined] is not a folder''"
    by (simp add: notAFolderWarning_def lit_def)
  ultimately show ?thesis
    by (simp add: w_def c_def [symmetric] src notesPlugin_def)
qed


section \<open>Calls and effects of the prune walk\<close>

lemma pruneWalk_calls:
  "\<exists>post. calls (state_of (pruneWalk V ps w)) = calls w @ post
     \<and> (\<forall>x\<in>set post. (\<exists>p. x = CallGetAbstractFileByPath p) \<or> (\<exists>e. x = CallDelete e True))"
proof (induction ps arbitrary: w)
  case Nil
  then show ?case by simp
next
  case (Cons p ps)
  let ?w1 = "logCall (CallGetAbstractFileByPath p) w"
  let ?ok = "\<lambda>x. (\<exists>p. x = CallGetAbstractFileByPath p) \<or> (\<exists>e. x = CallDelete e True)"
  have skip: "\<exists>post. calls (state_of (pruneWalk V ps ?w1)) = calls w @ post \<and> (\<forall>x\<in>set post. ?ok x)"
  proof -
    from Cons.IH [of ?w1] obtain post where
      "calls (state_of (pruneWalk V ps ?w1)) = calls ?w1 @ post" "\<forall>x\<in>set post. ?ok x" by blast
    then have "calls (state_of (pruneWalk V ps ?w1)) = calls w @ (CallGetAbstractFileByPath p # post)
        \<and> (\<forall>x\<in>set (CallGetAbstractFileByPath p # post). ?ok x)" by simp
    then show ?thesis by blast
  qed
  show ?case
  proof (cases "getAbstractFileByPath V (app w) p")
    case None
    with skip show ?thesis by simp
  next
    case (Some e)
    show ?thesis
    proof (cases e)
      case (File g)
      with Some skip show ?thesis by simp
    next
      case (Folder q ch)
      show ?thesis
      proof (cases "ch = []")
        case False
        with Some Folder skip show ?thesis by simp
      next
        case True
        show ?thesis
        proof (cases "vault_delete V (Folder q ch) True ?w1")
          case (Thrown w')
          then have "calls w' = calls w @ [CallGetAbstractFileByPath p, CallDelete (Folder q ch) True]"
            using vault_delete_fields(1) [of V "Folder q ch" True ?w1] by simp
          then have "calls w' = calls w @ [CallGetAbstractFileByPath p, CallDelete (Folder q ch) True]
              \<and> (\<forall>x\<in>set [CallGetAbstractFileByPath p, CallDelete (Folder q ch) True]. ?ok x)"
            by simp
          with Some Folder True Thrown show ?thesis
            by (simp del: append.simps set_simps; blast?)
        next
          case (Returned w')
          then have c: "calls w' = calls w @ [CallGetAbstractFileByPath p, CallDelete (Folder q ch) True]"
            using vault_delete_fields(1) [of V "Folder q ch" True ?w1] by simp
          from Cons.IH [of w'] obtain post where
            "calls (state_of (pruneWalk V ps w')) = calls w' @ post" "\<forall>x\<in>set post. ?ok x" by blast
          with c have "calls (state_of (pruneWalk V ps w'))
                = calls w @ ([CallGetAbstractFileByPath p, CallDelete (Folder q ch) True] @ post)
              \<and> (\<forall>x\<in>set ([CallGetAbstractFileByPath p, CallDelete (Folder q ch) True] @ post). ?ok x)"
            by simp
          with Some Folder True Returned show ?thesis
            by (simp del: append.simps set_simps set_append; blast?)
        qed
      qed
    qed
  qed
qed

lemma pruneWalk_absent:
  assumes "deleteContract V"
  shows "pruneWalk V ps w = Returned w' \<Longrightarrow> getAbstractFileByPath V (app w) a = None
           \<Longrightarrow> getAbstractFileByPath V (app w') a = None"
proof (induction ps arbitrary: w)
  case Nil
  then show ?case by simp
next
  case (Cons p ps)
  let ?w1 = "logCall (CallGetAbstractFileByPath p) w"
  have skip: "pruneWalk V ps ?w1 = Returned w' \<Longrightarrow> ?case"
    using Cons.IH [of ?w1] Cons.prems(2) by simp
  show ?case
  proof (cases "getAbstractFileByPath V (app w) p")
    case None
    with Cons.prems(1) skip show ?thesis by simp
  next
    case (Some e)
    show ?thesis
    proof (cases e)
      case (File g)
      with Some Cons.prems(1) skip show ?thesis by simp
    next
      case (Folder q ch)
      show ?thesis
      proof (cases "ch = []")
        case False
        with Some Folder Cons.prems(1) skip show ?thesis by simp
      next
        case True
        show ?thesis
        proof (cases rule: vault_delete_cases [of V "Folder q ch" True ?w1])
          case (1 s)
          from 1(2) assms Cons.prems(2) have "getAbstractFileByPath V s a = None"
            unfolding deleteContract_def by (metis logCall_fields(1))
          moreover from Cons.prems(1) Some Folder True 1(1)
          have "pruneWalk V ps (logCall (CallDelete (Folder q ch) True) ?w1\<lparr>app := s\<rparr>)
              = Returned w'" by simp
          ultimately show ?thesis
            using Cons.IH [of "logCall (CallDelete (Folder q ch) True) ?w1\<lparr>app := s\<rparr>"]
            by simp
        next
          case (2 s)
          with Cons.prems(1) Some Folder True show ?thesis by simp
        qed
      qed
    qed
  qed
qed

section \<open>The per-file step\<close>

lemma processSourceFile_calls:
  assumes el: "shouldFileBeArchived (getTime V (app w)) f c"
  shows "\<exists>del rest.
           calls (state_of (processSourceFile V f c w))
             = calls w
               @ (if maintainFolderStructure c
                  then [CallCreateFolder (getFolderFromPath (newFilePath f c))] else [])
               @ [CallGetAbstractFileByPath (newFilePath f c)] @ del @ rest
         \<and> (del = [] \<or> (\<exists>e. del = [CallDelete e False]))
         \<and> (rest = [] \<or>
              (\<exists>post. rest = [CallCopy f (newFilePath f c), CallDelete (File f) False] @ post
                 \<and> (\<forall>x\<in>set post. (\<exists>p. x = CallGetAbstractFileByPath p)
                                     \<or> (\<exists>e. x = CallDelete e True))))
         \<and> ((\<exists>w'. processSourceFile V f c w = Returned w') \<longrightarrow> rest \<noteq> [])
         \<and> (rest = [] \<longrightarrow> (\<exists>e. del = [CallDelete e False])
                           \<and> (\<exists>w'. processSourceFile V f c w = Thrown w'))"
proof -
  let ?np = "newFilePath f c"
  let ?cf = "if maintainFolderStructure c
             then [CallCreateFolder (getFolderFromPath ?np)] else []"
  let ?ok = "\<lambda>x. (\<exists>p. x = CallGetAbstractFileByPath p) \<or> (\<exists>e. x = CallDelete e True)"
  define w1 where "w1 = (if maintainFolderStructure c then createFoldersInPath V ?np w else w)"
  define w2 where "w2 = logCall (CallGetAbstractFileByPath ?np) w1"
  define T where "T = (\<lambda>w3. case vault_delete V (File f) False (copyFile V f ?np w3) of
                   Thrown w5 \<Rightarrow> Thrown w5
                 | Returned w5 \<Rightarrow>
                     (if deleteEmptyFolders c
                      then deleteEmptyFolders_walk V f c w5
                      else Returned w5))"
  have c2: "calls w2 = calls w @ ?cf @ [CallGetAbstractFileByPath ?np]"
    by (simp add: w2_def w1_def)
  have unfolded: "processSourceFile V f c w =
      (case (case getAbstractFileByPath V (app w1) ?np of
               Some e \<Rightarrow> vault_delete V e False w2
             | None \<Rightarrow> Returned w2) of
         Thrown w3 \<Rightarrow> Thrown w3
       | Returned w3 \<Rightarrow> T w3)"
    unfolding processSourceFile_def w1_def w2_def T_def Let_def using el by simp
  have tail: "\<exists>post. calls (state_of (T w3))
        = calls w3 @ [CallCopy f ?np, CallDelete (File f) False] @ post
      \<and> (\<forall>x\<in>set post. ?ok x)" for w3
  proof (cases "vault_delete V (File f) False (copyFile V f ?np w3)")
    case (Thrown w5)
    then have "calls w5 = calls w3 @ [CallCopy f ?np, CallDelete (File f) False]"
      using vault_delete_fields(1) [of V "File f" False "copyFile V f ?np w3"] by simp
    with Thrown show ?thesis by (simp add: T_def)
  next
    case (Returned w5)
    then have c5: "calls w5 = calls w3 @ [CallCopy f ?np, CallDelete (File f) False]"
      using vault_delete_fields(1) [of V "File f" False "copyFile V f ?np w3"] by simp
    show ?thesis
    proof (cases "deleteEmptyFolders c")
      case False
      with Returned c5 show ?thesis by (simp add: T_def)
    next
      case True
      obtain post where "calls (state_of (deleteEmptyFolders_walk V f c w5)) = calls w5 @ post"
        "\<forall>x\<in>set post. ?ok x"
        unfolding walk_is_pruneWalk using pruneWalk_calls by blast
      with c5 have "calls (state_of (deleteEmptyFolders_walk V f c w5))
          = calls w3 @ [CallCopy f ?np, CallDelete (File f) False] @ post
        \<and> (\<forall>x\<in>set post. ?ok x)" by simp
      with Returned True show ?thesis by (simp add: T_def del: append.simps; blast?)
    qed
  qed
  have pack: "\<exists>del rest.
           calls (state_of (processSourceFile V f c w))
             = calls w @ ?cf @ [CallGetAbstractFileByPath ?np] @ del @ rest
         \<and> (del = [] \<or> (\<exists>e. del = [CallDelete e False]))
         \<and> (rest = [] \<or>
              (\<exists>post. rest = [CallCopy f ?np, CallDelete (File f) False] @ post
                 \<and> (\<forall>x\<in>set post. ?ok x)))
         \<and> ((\<exists>w'. processSourceFile V f c w = Returned w') \<longrightarrow> rest \<noteq> [])
         \<and> (rest = [] \<longrightarrow> (\<exists>e. del = [CallDelete e False])
                           \<and> (\<exists>w'. processSourceFile V f c w = Thrown w'))"
    if "calls (state_of (processSourceFile V f c w))
             = calls w @ ?cf @ [CallGetAbstractFileByPath ?np] @ del @ rest"
       "del = [] \<or> (\<exists>e. del = [CallDelete e False])"
       "rest = [] \<or>
              (\<exists>post. rest = [CallCopy f ?np, CallDelete (File f) False] @ post
                 \<and> (\<forall>x\<in>set post. ?ok x))"
       "(\<exists>w'. processSourceFile V f c w = Returned w') \<longrightarrow> rest \<noteq> []"
       "rest = [] \<longrightarrow> (\<exists>e. del = [CallDelete e False])
                           \<and> (\<exists>w'. processSourceFile V f c w = Thrown w')"
    for del rest
    using that by (intro exI [of _ del] exI [of _ rest] conjI)
  show ?thesis
  proof (cases "getAbstractFileByPath V (app w1) ?np")
    case None
    from tail [of w2] obtain post where post:
      "calls (state_of (T w2)) = calls w2 @ [CallCopy f ?np, CallDelete (File f) False] @ post"
      "\<forall>x\<in>set post. ?ok x" by blast
    let ?rest = "[CallCopy f ?np, CallDelete (File f) False] @ post"
    from None have "processSourceFile V f c w = T w2" by (simp add: unfolded)
    with post(1) c2 have 1: "calls (state_of (processSourceFile V f c w))
         = calls w @ ?cf @ [CallGetAbstractFileByPath ?np] @ [] @ ?rest"
      by (simp only: append_assoc append_Nil)
    have 2: "[] = [] \<or> (\<exists>e. [] = [CallDelete e False])" by simp
    from post(2) have 3: "?rest = [] \<or>
              (\<exists>post'. ?rest = [CallCopy f ?np, CallDelete (File f) False] @ post'
                 \<and> (\<forall>x\<in>set post'. ?ok x))" by blast
    have 4: "(\<exists>w'. processSourceFile V f c w = Returned w') \<longrightarrow> ?rest \<noteq> []" by simp
    have 5: "?rest = [] \<longrightarrow> (\<exists>e'. [] = [CallDelete e' False])
                           \<and> (\<exists>w'. processSourceFile V f c w = Thrown w')" by simp
    from 1 2 3 4 5 show ?thesis by (rule pack)
  next
    case (Some e)
    show ?thesis
    proof (cases "vault_delete V e False w2")
      case (Thrown w3)
      then have "calls w3 = calls w2 @ [CallDelete e False]"
        using vault_delete_fields(1) [of V e False w2] by simp
      moreover from Some Thrown have r: "processSourceFile V f c w = Thrown w3"
        by (simp add: unfolded)
      ultimately have 1: "calls (state_of (processSourceFile V f c w))
         = calls w @ ?cf @ [CallGetAbstractFileByPath ?np] @ [CallDelete e False] @ []"
        using c2 by (simp only: state_of.simps append_assoc append_Nil2)
      have 2: "[CallDelete e False] = [] \<or> (\<exists>e'. [CallDelete e False] = [CallDelete e' False])"
        by simp
      have 3: "[] = [] \<or>
              (\<exists>post'. [] = [CallCopy f ?np, CallDelete (File f) False] @ post'
                 \<and> (\<forall>x\<in>set post'. ?ok x))" by simp
      from r have 4: "(\<exists>w'. processSourceFile V f c w = Returned w') \<longrightarrow> [] \<noteq> ([]::VaultCall list)"
        by simp
      from r have 5: "([]::VaultCall list) = [] \<longrightarrow>
                        (\<exists>e'. [CallDelete e False] = [CallDelete e' False])
                        \<and> (\<exists>w'. processSourceFile V f c w = Thrown w')"
        by simp
      from 1 2 3 4 5 show ?thesis by (rule pack)
    next
      case (Returned w3)
      then have c3: "calls w3 = calls w2 @ [CallDelete e False]"
        using vault_delete_fields(1) [of V e False w2] by simp
      from tail [of w3] obtain post where post:
        "calls (state_of (T w3)) = calls w3 @ [CallCopy f ?np, CallDelete (File f) False] @ post"
        "\<forall>x\<in>set post. ?ok x" by blast
      let ?rest = "[CallCopy f ?np, CallDelete (File f) False] @ post"
      from Some Returned have "processSourceFile V f c w = T w3" by (simp add: unfolded)
      with post(1) c2 c3 have 1: "calls (state_of (processSourceFile V f c w))
           = calls w @ ?cf @ [CallGetAbstractFileByPath ?np] @ [CallDelete e False] @ ?rest"
        by (simp only: append_assoc)
      have 2: "[CallDelete e False] = [] \<or> (\<exists>e'. [CallDelete e False] = [CallDelete e' False])"
        by simp
      from post(2) have 3: "?rest = [] \<or>
              (\<exists>post'. ?rest = [CallCopy f ?np, CallDelete (File f) False] @ post'
                 \<and> (\<forall>x\<in>set post'. ?ok x))" by blast
      have 4: "(\<exists>w'. processSourceFile V f c w = Returned w') \<longrightarrow> ?rest \<noteq> []" by simp
      have 5: "?rest = [] \<longrightarrow> (\<exists>e'. [CallDelete e False] = [CallDelete e' False])
                           \<and> (\<exists>w'. processSourceFile V f c w = Thrown w')" by simp
      from 1 2 3 4 5 show ?thesis by (rule pack)
    qed
  qed
qed

lemma processSourceFile_source_gone:
  assumes el: "shouldFileBeArchived (getTime V (app w)) f c"
      and ret: "processSourceFile V f c w = Returned w'"
      and con: "deleteContract V"
  shows "getAbstractFileByPath V (app w') (path f) = None"
proof -
  let ?np = "newFilePath f c"
  from ret el obtain w3 w5 where
    del: "vault_delete V (File f) False (copyFile V f ?np w3) = Returned w5" and
    fin: "(if deleteEmptyFolders c then deleteEmptyFolders_walk V f c w5 else Returned w5)
            = Returned w'"
    by (auto simp: processSourceFile_def Let_def split: outcome.splits option.splits)
  from del obtain s where
    s: "delete V (app (copyFile V f ?np w3)) (File f) False = Returned s" and
    w5: "app w5 = s"
    by (cases rule: vault_delete_cases [of V "File f" False "copyFile V f ?np w3"]) auto
  from con s have "getAbstractFileByPath V s (pathOf (File f)) = None"
    unfolding deleteContract_def by blast
  with w5 have gone: "getAbstractFileByPath V (app w5) (path f) = None" by simp
  show ?thesis
  proof (cases "deleteEmptyFolders c")
    case False
    with fin gone show ?thesis by simp
  next
    case True
    with fin have "pruneWalk V (visitedPaths (sourceFolder c)
        (splitPathString (getFolderFromPath (getFilePathInSourceFolder f c)))
        (length (splitPathString (getFolderFromPath (getFilePathInSourceFolder f c))))) w5
        = Returned w'"
      by (simp add: walk_is_pruneWalk)
    from pruneWalk_absent [OF con this gone] show ?thesis .
  qed
qed

text \<open>
  Claim C1. On an eligible file the per-file step goes one of two ways, in every vault.
  Either an entity found at the destination could not be deleted: that \<open>delete\<close> threw, the
  step ended there, and no copy was attempted. Or the step called \<open>copy\<close> for the file and,
  directly after it, \<open>delete\<close> for the source file. Nothing is assumed of \<open>copy\<close>, so it may
  return or throw: a throw of \<open>copy\<close> never ends the step and never keeps the source file
  from being deleted. When the step completes, in a vault whose \<open>delete\<close> removes what it is
  given and brings nothing back, the source path resolves to nothing, so the file is not
  present both at its source location and at the computed destination.
\<close>

theorem source_deleted_after_copy_attempt:
  assumes "shouldFileBeArchived (getTime V (app w)) f c"
  shows "((\<exists>e w'. processSourceFile V f c w = Thrown w'
              \<and> calls w' = calls w
                   @ (if maintainFolderStructure c
                      then [CallCreateFolder (getFolderFromPath (newFilePath f c))] else [])
                   @ [CallGetAbstractFileByPath (newFilePath f c), CallDelete e False])
          \<or> (\<exists>pre post.
                calls (state_of (processSourceFile V f c w))
                  = calls w @ pre
                    @ [CallCopy f (newFilePath f c), CallDelete (File f) False] @ post
                \<and> (\<forall>g p. CallCopy g p \<notin> set pre \<and> CallCopy g p \<notin> set post)))
       \<and> (\<forall>w'. processSourceFile V f c w = Returned w' \<longrightarrow>
             (\<exists>pre post.
                calls w' = calls w @ pre
                           @ [CallCopy f (newFilePath f c), CallDelete (File f) False] @ post
                \<and> (\<forall>g p. CallCopy g p \<notin> set pre \<and> CallCopy g p \<notin> set post))
             \<and> (deleteContract V \<longrightarrow>
                   getAbstractFileByPath V (app w') (path f) = None
                   \<and> \<not> (getAbstractFileByPath V (app w') (path f) \<noteq> None
                        \<and> getAbstractFileByPath V (app w') (newFilePath f c) \<noteq> None)))"
proof -
  let ?np = "newFilePath f c"
  let ?cf = "if maintainFolderStructure c
             then [CallCreateFolder (getFolderFromPath ?np)] else []"
  let ?R = "processSourceFile V f c w"
  let ?copied = "\<lambda>cs. \<exists>pre post.
      cs = calls w @ pre @ [CallCopy f ?np, CallDelete (File f) False] @ post
      \<and> (\<forall>g p. CallCopy g p \<notin> set pre \<and> CallCopy g p \<notin> set post)"
  from processSourceFile_calls [OF assms] obtain del rest where
    c: "calls (state_of ?R) = calls w @ ?cf @ [CallGetAbstractFileByPath ?np] @ del @ rest" and
    d: "del = [] \<or> (\<exists>e. del = [CallDelete e False])" and
    r: "rest = [] \<or>
              (\<exists>post. rest = [CallCopy f ?np, CallDelete (File f) False] @ post
                 \<and> (\<forall>x\<in>set post. (\<exists>p. x = CallGetAbstractFileByPath p)
                                     \<or> (\<exists>e. x = CallDelete e True)))" and
    ret: "(\<exists>w'. ?R = Returned w') \<longrightarrow> rest \<noteq> []" and
    thr: "rest = [] \<longrightarrow> (\<exists>e. del = [CallDelete e False]) \<and> (\<exists>w'. ?R = Thrown w')"
    by blast
  have copied: "?copied (calls (state_of ?R))" if ne: "rest \<noteq> []"
  proof -
    from r ne obtain post where
      rest: "rest = [CallCopy f ?np, CallDelete (File f) False] @ post" and
      p: "\<forall>x\<in>set post. (\<exists>p. x = CallGetAbstractFileByPath p) \<or> (\<exists>e. x = CallDelete e True)"
      by blast
    let ?pre = "?cf @ [CallGetAbstractFileByPath ?np] @ del"
    from c rest have 1: "calls (state_of ?R)
        = calls w @ ?pre @ [CallCopy f ?np, CallDelete (File f) False] @ post"
      by (simp only: append_assoc)
    from d have 2: "\<forall>g p. CallCopy g p \<notin> set ?pre" by auto
    from p have 3: "\<forall>g p. CallCopy g p \<notin> set post" by auto
    from 1 2 3 show ?thesis by (intro exI [of _ ?pre] exI [of _ post]) blast
  qed
  have first: "(\<exists>e w'. ?R = Thrown w'
              \<and> calls w' = calls w @ ?cf @ [CallGetAbstractFileByPath ?np, CallDelete e False])
          \<or> ?copied (calls (state_of ?R))"
  proof (cases "rest = []")
    case False
    then show ?thesis using copied by (intro disjI2)
  next
    case True
    with thr obtain e w' where e: "del = [CallDelete e False]" and t: "?R = Thrown w'" by blast
    from c True e t have "calls w' = calls w @ ?cf
        @ [CallGetAbstractFileByPath ?np, CallDelete e False]"
      by simp
    with t show ?thesis by (intro disjI1 exI [of _ e] exI [of _ w'] conjI)
  qed
  have second: "?copied (calls w')
             \<and> (deleteContract V \<longrightarrow>
                   getAbstractFileByPath V (app w') (path f) = None
                   \<and> \<not> (getAbstractFileByPath V (app w') (path f) \<noteq> None
                        \<and> getAbstractFileByPath V (app w') ?np \<noteq> None))"
    if w': "?R = Returned w'" for w'
  proof (intro conjI impI)
    from w' ret have "rest \<noteq> []" by blast
    then have "?copied (calls (state_of ?R))" by (rule copied)
    with w' show "?copied (calls w')" by simp
  next
    assume "deleteContract V"
    with assms w' show gone: "getAbstractFileByPath V (app w') (path f) = None"
      by (rule processSourceFile_source_gone)
    then show "\<not> (getAbstractFileByPath V (app w') (path f) \<noteq> None
                  \<and> getAbstractFileByPath V (app w') ?np \<noteq> None)"
      by simp
  qed
  show ?thesis
  proof (rule conjI)
    show "(\<exists>e w'. ?R = Thrown w'
              \<and> calls w' = calls w @ ?cf @ [CallGetAbstractFileByPath ?np, CallDelete e False])
          \<or> ?copied (calls (state_of ?R))"
      by (rule first)
    show "\<forall>w'. ?R = Returned w' \<longrightarrow>
             ?copied (calls w')
             \<and> (deleteContract V \<longrightarrow>
                   getAbstractFileByPath V (app w') (path f) = None
                   \<and> \<not> (getAbstractFileByPath V (app w') (path f) \<noteq> None
                        \<and> getAbstractFileByPath V (app w') ?np \<noteq> None))"
      by (intro allI impI) (rule second)
  qed
qed

lemma findPath_removePath: "findPath p (removePath p t) = None"
  by (induction p t rule: removePath.induct) auto

lemma findPath_removePath_None: "findPath q t = None \<longrightarrow> findPath q (removePath p t) = None"
proof (induction p t rule: removePath.induct)
  case (1 p)
  show ?case by simp
next
  case (2 p f rest)
  then show ?case by (cases "path f = p") simp_all
next
  case (3 p qa ch rest)
  show ?case
  proof (cases "qa = p")
    case True
    with 3(1) show ?thesis by (simp split: option.splits if_splits)
  next
    case False
    with 3(2,3) show ?thesis by (simp split: option.splits if_splits)
  qed
qed

lemma refVault_deleteContract: "deleteContract refVault"
  unfolding deleteContract_def
  using findPath_removePath_None
  by (auto simp: refVault_def ref_delete_def findPath_removePath split: if_splits)

lemma Returned_state_of:
  "(case r of Returned x \<Rightarrow> True | Thrown x \<Rightarrow> False) \<Longrightarrow> r = Returned (state_of r)"
  by (cases r) simp_all

theorem source_deleted_after_copy_attempt_witness:
  "copy refVault (app notesPlugin) notesFile (lit ''Missing/31.md'') = Thrown (app notesPlugin)
   \<and> take 3 (calls (state_of (processSourceFile refVault notesFile
        (notesRule\<lparr>destFolder := lit ''Missing'', maintainFolderStructure := False\<rparr>)
        notesPlugin)))
       = [CallGetAbstractFileByPath (lit ''Missing/31.md''),
          CallCopy notesFile (lit ''Missing/31.md''),
          CallDelete (File notesFile) False]
   \<and> getAbstractFileByPath refVault
     (app (state_of (processSourceFile refVault notesFile
        (notesRule\<lparr>destFolder := lit ''Missing'', maintainFolderStructure := False\<rparr>) notesPlugin)))
     (path notesFile) = None
   \<and> getAbstractFileByPath refVault
     (app (state_of (processSourceFile refVault notesFile
        (notesRule\<lparr>destFolder := lit ''Missing'', maintainFolderStructure := False\<rparr>) notesPlugin)))
     (lit ''Missing/31.md'') = None"
proof -
  define c where "c = notesRule\<lparr>destFolder := lit ''Missing'', maintainFolderStructure := False\<rparr>"
  define r where "r = processSourceFile refVault notesFile c notesPlugin"
  have el: "shouldFileBeArchived (getTime refVault (app notesPlugin)) notesFile c"
    unfolding c_def by code_simp
  have "case r of Returned x \<Rightarrow> True | Thrown x \<Rightarrow> False"
    unfolding r_def c_def by code_simp
  then have ret: "processSourceFile refVault notesFile c notesPlugin = Returned (state_of r)"
    unfolding r_def by (rule Returned_state_of)
  from source_deleted_after_copy_attempt [OF el]
  have "\<forall>w'. processSourceFile refVault notesFile c notesPlugin = Returned w' \<longrightarrow>
      (deleteContract refVault \<longrightarrow>
         getAbstractFileByPath refVault (app w') (path notesFile) = None)"
    by blast
  with ret refVault_deleteContract
  have 1: "getAbstractFileByPath refVault (app (state_of r)) (path notesFile) = None"
    by blast
  have 2: "getAbstractFileByPath refVault (app (state_of r)) (lit ''Missing/31.md'') = None"
    unfolding r_def c_def by code_simp
  have 3: "copy refVault (app notesPlugin) notesFile (lit ''Missing/31.md'')
      = Thrown (app notesPlugin)"
    by code_simp
  have 4: "take 3 (calls (state_of r))
       = [CallGetAbstractFileByPath (lit ''Missing/31.md''),
          CallCopy notesFile (lit ''Missing/31.md''),
          CallDelete (File notesFile) False]"
    unfolding r_def c_def by code_simp
  from 1 2 3 4 show ?thesis unfolding r_def c_def by (intro conjI)
qed

lemma processSourceFile_calls_after_lookup:
  assumes "shouldFileBeArchived (getTime V (app w)) f c"
  shows "\<exists>rest. calls (state_of (processSourceFile V f c w))
             = calls w
               @ (if maintainFolderStructure c
                  then [CallCreateFolder (getFolderFromPath (newFilePath f c))] else [])
               @ [CallGetAbstractFileByPath (newFilePath f c)] @ rest
          \<and> (\<forall>g p. CallCopy g p \<in> set rest \<longrightarrow> g = f \<and> p = newFilePath f c)
          \<and> (\<forall>p. CallCreateFolder p \<notin> set rest)"
proof -
  from processSourceFile_calls [OF assms] obtain del rest where
    c: "calls (state_of (processSourceFile V f c w))
             = calls w
               @ (if maintainFolderStructure c
                  then [CallCreateFolder (getFolderFromPath (newFilePath f c))] else [])
               @ [CallGetAbstractFileByPath (newFilePath f c)] @ del @ rest" and
    d: "del = [] \<or> (\<exists>e. del = [CallDelete e False])" and
    r: "rest = [] \<or>
              (\<exists>post. rest = [CallCopy f (newFilePath f c), CallDelete (File f) False] @ post
                 \<and> (\<forall>x\<in>set post. (\<exists>p. x = CallGetAbstractFileByPath p)
                                     \<or> (\<exists>e. x = CallDelete e True)))"
    by blast
  let ?np = "newFilePath f c"
  have dd: "\<forall>x\<in>set del. \<exists>e. x = CallDelete e False"
    using d by (elim disjE exE) simp_all
  have rr: "\<forall>x\<in>set rest. x = CallCopy f ?np \<or> (\<exists>p. x = CallGetAbstractFileByPath p)
                \<or> (\<exists>e b. x = CallDelete e b)"
    using r
  proof
    assume "rest = []"
    then show ?thesis by simp
  next
    assume "\<exists>post. rest = [CallCopy f ?np, CallDelete (File f) False] @ post
                 \<and> (\<forall>x\<in>set post. (\<exists>p. x = CallGetAbstractFileByPath p)
                                     \<or> (\<exists>e. x = CallDelete e True))"
    then obtain post where post: "rest = [CallCopy f ?np, CallDelete (File f) False] @ post"
      "\<forall>x\<in>set post. (\<exists>p. x = CallGetAbstractFileByPath p) \<or> (\<exists>e. x = CallDelete e True)"
      by blast
    show ?thesis
    proof
      fix x assume "x \<in> set rest"
      with post(1) have "x = CallCopy f ?np \<or> x = CallDelete (File f) False \<or> x \<in> set post"
        by simp
      with post(2) show "x = CallCopy f ?np \<or> (\<exists>p. x = CallGetAbstractFileByPath p)
                \<or> (\<exists>e b. x = CallDelete e b)" by blast
    qed
  qed
  have all: "\<forall>x\<in>set (del @ rest). x = CallCopy f ?np \<or> (\<exists>p. x = CallGetAbstractFileByPath p)
                \<or> (\<exists>e b. x = CallDelete e b)"
  proof
    fix x assume "x \<in> set (del @ rest)"
    then have "x \<in> set del \<or> x \<in> set rest" by simp
    with dd rr show "x = CallCopy f ?np \<or> (\<exists>p. x = CallGetAbstractFileByPath p)
                \<or> (\<exists>e b. x = CallDelete e b)" by blast
  qed
  have 1: "\<forall>g p. CallCopy g p \<in> set (del @ rest) \<longrightarrow> g = f \<and> p = ?np"
  proof (intro allI impI)
    fix g p assume "CallCopy g p \<in> set (del @ rest)"
    with all have "CallCopy g p = CallCopy f ?np \<or> (\<exists>q. CallCopy g p = CallGetAbstractFileByPath q)
                \<or> (\<exists>e b. CallCopy g p = CallDelete e b)" by (rule bspec)
    then show "g = f \<and> p = ?np" by simp
  qed
  have 2: "\<forall>p. CallCreateFolder p \<notin> set (del @ rest)"
  proof (intro allI notI)
    fix p assume "CallCreateFolder p \<in> set (del @ rest)"
    with all have "CallCreateFolder p = CallCopy f ?np
                \<or> (\<exists>q. CallCreateFolder p = CallGetAbstractFileByPath q)
                \<or> (\<exists>e b. CallCreateFolder p = CallDelete e b)" by (rule bspec)
    then show False by simp
  qed
  from c 1 2 show ?thesis by (intro exI [of _ "del @ rest"] conjI)
qed

text \<open>
  The destination of the per-file step, in every vault. With \<open>maintainFolderStructure\<close> it is
  \<open>joinPaths\<close> of \<open>destFolder\<close> and the result of \<open>getFilePathInSourceFolder\<close>, which is the
  rest of the path when the path begins with \<open>sourceFolder\<close>; the step first calls
  \<open>createFolder\<close> on the folder part of that destination, then looks the destination up, and
  copies nowhere else. Without it the destination is \<open>joinPaths\<close> of \<open>destFolder\<close> and the
  file's name, and no folder is created. For \<open>Notes\<close>, \<open>Notes/2023/December/31.md\<close> and
  \<open>Archive\<close> the destinations are \<open>Archive/2023/December/31.md\<close> and \<open>Archive/31.md\<close>.
\<close>

lemma destination_of_step:
  assumes "shouldFileBeArchived (getTime V (app w)) f c"
  shows "(maintainFolderStructure c \<longrightarrow>
            (\<exists>rest. calls (state_of (processSourceFile V f c w))
                = calls w
                  @ [CallCreateFolder (getFolderFromPath
                       (joinPaths (destFolder c) (getFilePathInSourceFolder f c))),
                     CallGetAbstractFileByPath
                       (joinPaths (destFolder c) (getFilePathInSourceFolder f c))]
                  @ rest
              \<and> (\<forall>g p. CallCopy g p \<in> set rest \<longrightarrow>
                    g = f \<and> p = joinPaths (destFolder c) (getFilePathInSourceFolder f c))))
       \<and> (\<not> maintainFolderStructure c \<longrightarrow>
            (\<exists>rest. calls (state_of (processSourceFile V f c w))
                = calls w @ [CallGetAbstractFileByPath (joinPaths (destFolder c) (name f))] @ rest
              \<and> (\<forall>g p. CallCopy g p \<in> set rest \<longrightarrow>
                    g = f \<and> p = joinPaths (destFolder c) (name f))
              \<and> (\<forall>p. CallCreateFolder p \<notin> set rest)))
       \<and> (maintainFolderStructure c \<and> path f = sourceFolder c @ rel \<longrightarrow>
             newFilePath f c = joinPaths (destFolder c) rel)
       \<and> newFilePath notesFile notesRule = lit ''Archive/2023/December/31.md''
       \<and> getFolderFromPath (lit ''Archive/2023/December/31.md'') = lit ''Archive/2023/December''
       \<and> newFilePath notesFile (notesRule\<lparr>maintainFolderStructure := False\<rparr>) = lit ''Archive/31.md''"
proof (intro conjI impI)
  assume m: "maintainFolderStructure c"
  from processSourceFile_calls_after_lookup [OF assms] m obtain rest where
    "calls (state_of (processSourceFile V f c w))
                = calls w
                  @ [CallCreateFolder (getFolderFromPath
                       (joinPaths (destFolder c) (getFilePathInSourceFolder f c))),
                     CallGetAbstractFileByPath
                       (joinPaths (destFolder c) (getFilePathInSourceFolder f c))]
                  @ rest"
    "\<forall>g p. CallCopy g p \<in> set rest \<longrightarrow>
                    g = f \<and> p = joinPaths (destFolder c) (getFilePathInSourceFolder f c)"
    by (auto simp: newFilePath_def)
  then show "\<exists>rest. calls (state_of (processSourceFile V f c w))
                = calls w
                  @ [CallCreateFolder (getFolderFromPath
                       (joinPaths (destFolder c) (getFilePathInSourceFolder f c))),
                     CallGetAbstractFileByPath
                       (joinPaths (destFolder c) (getFilePathInSourceFolder f c))]
                  @ rest
              \<and> (\<forall>g p. CallCopy g p \<in> set rest \<longrightarrow>
                    g = f \<and> p = joinPaths (destFolder c) (getFilePathInSourceFolder f c))"
    by (intro exI [of _ rest] conjI)
next
  assume m: "\<not> maintainFolderStructure c"
  from processSourceFile_calls_after_lookup [OF assms] m
  show "\<exists>rest. calls (state_of (processSourceFile V f c w))
                = calls w @ [CallGetAbstractFileByPath (joinPaths (destFolder c) (name f))] @ rest
              \<and> (\<forall>g p. CallCopy g p \<in> set rest \<longrightarrow>
                    g = f \<and> p = joinPaths (destFolder c) (name f))
              \<and> (\<forall>p. CallCreateFolder p \<notin> set rest)"
    by (simp add: newFilePath_def)
next
  assume "maintainFolderStructure c \<and> path f = sourceFolder c @ rel"
  then show "newFilePath f c = joinPaths (destFolder c) rel"
    using replace_prefix [of "sourceFolder c" rel]
    by (simp add: newFilePath_def getFilePathInSourceFolder_def)
next
  show "newFilePath notesFile notesRule = lit ''Archive/2023/December/31.md''"
    by code_simp
  show "getFolderFromPath (lit ''Archive/2023/December/31.md'') = lit ''Archive/2023/December''"
    by code_simp
  show "newFilePath notesFile (notesRule\<lparr>maintainFolderStructure := False\<rparr>) = lit ''Archive/31.md''"
    by code_simp
qed

lemma destination_of_step_example:
  "take 2 (calls (state_of (processSourceFile refVault notesFile notesRule notesPlugin)))
     = [CallCreateFolder (lit ''Archive/2023/December''),
        CallGetAbstractFileByPath (lit ''Archive/2023/December/31.md'')]
   \<and> findPath (lit ''Archive/2023'')
         (tree (app (state_of (processSourceFile refVault notesFile notesRule notesPlugin))))
       = Some (Folder (lit ''Archive/2023'')
           [Folder (lit ''Archive/2023/December'')
             [File \<lparr>path = lit ''Archive/2023/December/31.md'', name = lit ''31.md'',
                    ctime = 1700000000000\<rparr>]])
   \<and> findPath (lit ''Notes/2023/December/31.md'')
         (tree (app (state_of (processSourceFile refVault notesFile notesRule notesPlugin))))
       = None"
proof -
  define r where "r = processSourceFile refVault notesFile notesRule notesPlugin"
  have el: "shouldFileBeArchived (getTime refVault (app notesPlugin)) notesFile notesRule"
    by code_simp
  have m: "maintainFolderStructure notesRule" by (simp add: notesRule_def)
  have np: "joinPaths (destFolder notesRule) (getFilePathInSourceFolder notesFile notesRule)
      = lit ''Archive/2023/December/31.md''"
    by code_simp
  have fp: "getFolderFromPath (lit ''Archive/2023/December/31.md'') = lit ''Archive/2023/December''"
    by code_simp
  from destination_of_step [OF el, of "[]"] m obtain rest where
    "calls (state_of r) = calls notesPlugin
       @ [CallCreateFolder (getFolderFromPath
             (joinPaths (destFolder notesRule) (getFilePathInSourceFolder notesFile notesRule))),
          CallGetAbstractFileByPath
             (joinPaths (destFolder notesRule) (getFilePathInSourceFolder notesFile notesRule))]
       @ rest"
    unfolding r_def by blast
  then have 1: "take 2 (calls (state_of r))
     = [CallCreateFolder (lit ''Archive/2023/December''),
        CallGetAbstractFileByPath (lit ''Archive/2023/December/31.md'')]"
    by (simp add: np fp notesPlugin_def)
  have 2: "findPath (lit ''Archive/2023'') (tree (app (state_of r)))
       = Some (Folder (lit ''Archive/2023'')
           [Folder (lit ''Archive/2023/December'')
             [File \<lparr>path = lit ''Archive/2023/December/31.md'', name = lit ''31.md'',
                    ctime = 1700000000000\<rparr>]])"
    unfolding r_def by code_simp
  have 3: "findPath (lit ''Notes/2023/December/31.md'') (tree (app (state_of r))) = None"
    unfolding r_def by code_simp
  from 1 2 3 show ?thesis unfolding r_def by (intro conjI)
qed

text \<open>
  Claim C4 at the root source folder. The claim says that with \<open>maintainFolderStructure\<close>
  the destination is \<open>joinPaths\<close> of \<open>destFolder\<close> and the file's path relative to the source
  folder. For the rule on the root \<open>/\<close> and the note \<open>Notes/2023/a.md\<close>, whose relative path
  is \<open>Notes/2023/a.md\<close>, that is \<open>Archive/Notes/2023/a.md\<close>. The code removes the first slash
  of the path instead of a prefix: its destination is \<open>Archive/Notes2023/a.md\<close>, it creates
  the folder \<open>Archive/Notes2023\<close>, and the note ends up there, with the hierarchy of the
  source folder lost.
\<close>

theorem destination_for_root_source_folder:
  "getFilePathInSourceFolder nestedFile rootRule = lit ''Notes2023/a.md''
   \<and> newFilePath nestedFile rootRule = lit ''Archive/Notes2023/a.md''
   \<and> joinPaths (destFolder rootRule) (path nestedFile) = lit ''Archive/Notes/2023/a.md''
   \<and> take 3 (calls (state_of (processSourceFile refVault nestedFile rootRule nestedPlugin)))
       = [CallCreateFolder (lit ''Archive/Notes2023''),
          CallGetAbstractFileByPath (lit ''Archive/Notes2023/a.md''),
          CallCopy nestedFile (lit ''Archive/Notes2023/a.md'')]
   \<and> findPath (lit ''Archive/Notes2023/a.md'')
         (tree (app (state_of (processSourceFile refVault nestedFile rootRule nestedPlugin))))
       = Some (File \<lparr>path = lit ''Archive/Notes2023/a.md'', name = lit ''a.md'',
                       ctime = 1700000000000\<rparr>)
   \<and> findPath (lit ''Archive/Notes/2023/a.md'')
         (tree (app (state_of (processSourceFile refVault nestedFile rootRule nestedPlugin))))
       = None"
proof (intro conjI)
  show "getFilePathInSourceFolder nestedFile rootRule = lit ''Notes2023/a.md''"
    by code_simp
  show "newFilePath nestedFile rootRule = lit ''Archive/Notes2023/a.md''"
    by code_simp
  show "joinPaths (destFolder rootRule) (path nestedFile) = lit ''Archive/Notes/2023/a.md''"
    by code_simp
  show "take 3 (calls (state_of (processSourceFile refVault nestedFile rootRule nestedPlugin)))
       = [CallCreateFolder (lit ''Archive/Notes2023''),
          CallGetAbstractFileByPath (lit ''Archive/Notes2023/a.md''),
          CallCopy nestedFile (lit ''Archive/Notes2023/a.md'')]"
    by code_simp
  show "findPath (lit ''Archive/Notes2023/a.md'')
         (tree (app (state_of (processSourceFile refVault nestedFile rootRule nestedPlugin))))
       = Some (File \<lparr>path = lit ''Archive/Notes2023/a.md'', name = lit ''a.md'',
                       ctime = 1700000000000\<rparr>)"
    by code_simp
  show "findPath (lit ''Archive/Notes/2023/a.md'')
         (tree (app (state_of (processSourceFile refVault nestedFile rootRule nestedPlugin))))
       = None"
    by code_simp
qed

section \<open>The prune walk\<close>

lemma split_no_sep: "sep \<notin> set x \<Longrightarrow> split x sep = [x]"
  by (induction x) auto

lemma split_append_sep: "sep \<notin> set x \<Longrightarrow> split (x @ sep # r) sep = x # split r sep"
  by (induction x) auto

lemma split_join:
  "segs \<noteq> [] \<Longrightarrow> \<forall>s\<in>set segs. sep \<notin> set s \<Longrightarrow> split (join segs [sep]) sep = segs"
proof (induction segs "[sep]" rule: join.induct)
  case 1
  then show ?case by simp
next
  case (2 x)
  then show ?case by (simp add: split_no_sep)
next
  case (3 x y ys)
  then show ?case by (simp add: split_append_sep)
qed

lemma splitPathString_Nil: "splitPathString [] = []"
  by (simp add: splitPathString_def)

lemma splitPathString_join:
  assumes "segs \<noteq> []" and "\<forall>s\<in>set segs. s \<noteq> [] \<and> SLASH \<notin> set s"
  shows "splitPathString (SLASH # join segs [SLASH]) = segs"
proof -
  from assms have "split (join segs [SLASH]) SLASH = segs" by (intro split_join) auto
  moreover from assms(2) have "filter (\<lambda>segment. segment \<noteq> []) segs = segs"
    by (induction segs) auto
  ultimately show ?thesis by (simp add: splitPathString_def)
qed

lemma lastIndexOf_upto_last_slash:
  assumes "SLASH \<notin> set nm"
  shows "length a \<le> k \<Longrightarrow> k \<le> length (a @ SLASH # nm)
           \<Longrightarrow> lastIndexOf_upto (a @ SLASH # nm) [SLASH] k = int (length a)"
proof (induction k)
  case 0
  then show ?case by (simp add: startsWith_def)
next
  case (Suc k)
  show ?case
  proof (cases "Suc k = length a")
    case True
    then have "drop (Suc k) (a @ SLASH # nm) = SLASH # nm" by simp
    then have "startsWith (drop (Suc k) (a @ SLASH # nm)) [SLASH]"
      by (simp add: startsWith_def)
    then have "lastIndexOf_upto (a @ SLASH # nm) [SLASH] (Suc k) = int (Suc k)"
      by (simp only: lastIndexOf_upto.simps if_True)
    then show ?thesis by (simp only: True)
  next
    case False
    with Suc.prems have gt: "length a < Suc k" by simp
    then have "drop (Suc k) (a @ SLASH # nm) = drop (k - length a) nm"
      by (simp add: Suc_diff_le)
    moreover have "\<not> startsWith (drop (k - length a) nm) [SLASH]"
    proof
      assume "startsWith (drop (k - length a) nm) [SLASH]"
      then have "drop (k - length a) nm \<noteq> [] \<and> hd (drop (k - length a) nm) = SLASH"
        by (simp add: startsWith_slash)
      then have "SLASH \<in> set (drop (k - length a) nm)" by (metis hd_in_set)
      with assms show False by (meson in_set_dropD)
    qed
    ultimately have "lastIndexOf_upto (a @ SLASH # nm) [SLASH] (Suc k)
        = lastIndexOf_upto (a @ SLASH # nm) [SLASH] k" by simp
    with Suc.IH gt Suc.prems show ?thesis by simp
  qed
qed

lemma lastIndexOf_last_slash:
  "SLASH \<notin> set nm \<Longrightarrow> lastIndexOf (a @ SLASH # nm) [SLASH] = int (length a)"
  unfolding lastIndexOf_def by (rule lastIndexOf_upto_last_slash) simp_all

lemma endsWith_append: "endsWith nm suf \<Longrightarrow> endsWith (a @ nm) suf"
  by (auto simp: endsWith_def)

lemma getFolderFromPath_file:
  assumes "endsWith nm (lit ''.md'')" and "SLASH \<notin> set nm"
  shows "getFolderFromPath (a @ SLASH # nm) = a"
proof -
  have e: "endsWith (a @ SLASH # nm) (lit ''.md'')"
    using endsWith_append [OF endsWith_append [OF assms(1), of "[SLASH]"], of a] by simp
  have l: "lastIndexOf (a @ SLASH # nm) [SLASH] = int (length a)"
    using assms(2) by (rule lastIndexOf_last_slash)
  have "slice (a @ SLASH # nm) 0 (int (length a)) = a"
    by (simp add: slice_def Let_def)
  with e l show ?thesis by (simp add: getFolderFromPath_def contains_def lit_slash)
qed

lemma join_snoc:
  "join (segs @ [nm]) sep = (if segs = [] then nm else join segs sep @ sep @ nm)"
  by (induction segs sep rule: join.induct) auto

lemma join_append:
  "xs \<noteq> [] \<Longrightarrow> ys \<noteq> [] \<Longrightarrow> join (xs @ ys) sep = join xs sep @ sep @ join ys sep"
proof (induction xs sep rule: join.induct)
  case (1 sep)
  then show ?case by simp
next
  case (2 x sep)
  then show ?case by (cases ys) auto
next
  case (3 x y ys' sep)
  then show ?case by simp
qed

lemma join_hd_last:
  assumes "xs \<noteq> []" and "\<forall>s\<in>set xs. s \<noteq> []"
  shows "join xs sep \<noteq> [] \<and> hd (join xs sep) = hd (hd xs)
       \<and> last (join xs sep) = last (last xs)"
  using assms
proof (induction xs sep rule: join.induct)
  case (1 sep)
  then show ?case by simp
next
  case (2 x sep)
  then show ?case by simp
next
  case (3 x y ys sep)
  then have "join (y # ys) sep \<noteq> []" "last (join (y # ys) sep) = last (last (y # ys))"
    by simp_all
  with 3 show ?case by simp
qed

lemma stripStart_fixed: "x = [] \<or> hd x \<noteq> SLASH \<Longrightarrow> joinPaths_stripStart x = x"
  by (cases x) (auto simp: stripStart_eq)

lemma joinPaths_plain:
  assumes S: "S \<noteq> []" "trim S = S" "last S \<noteq> SLASH"
      and J: "J \<noteq> []" "\<not> isWhiteSpace (hd J)" "\<not> isWhiteSpace (last J)"
             "hd J \<noteq> SLASH" "last J \<noteq> SLASH"
  shows "joinPaths S J = S @ SLASH # J"
proof -
  from J have tj: "trim J = J" by (intro trim_fixed) simp
  from J have sj: "joinPaths_stripEnd (joinPaths_stripStart J) = J"
    by (simp add: stripStart_fixed stripEnd_fixed)
  from S have ss: "joinPaths_stripEnd S = S" by (simp add: stripEnd_fixed)
  from S J show ?thesis by (simp add: joinPaths_def Let_def tj sj ss lit_slash)
qed

lemma foldersBetween_snoc:
  "foldersBetween S (xs @ [x]) = (S @ SLASH # join (xs @ [x]) [SLASH]) # foldersBetween S xs"
proof -
  have "map (\<lambda>k. S @ [SLASH] @ join (take k (xs @ [x])) [SLASH]) (rev [1 ..< Suc (length xs)])
      = map (\<lambda>k. S @ [SLASH] @ join (take k xs) [SLASH]) (rev [1 ..< Suc (length xs)])"
    by (rule map_cong) auto
  then show ?thesis by (simp add: foldersBetween_def)
qed

lemma visitedPaths_between:
  assumes S: "S \<noteq> []" "trim S = S" "last S \<noteq> SLASH"
  shows "\<forall>s\<in>set segs. s \<noteq> [] \<and> SLASH \<notin> set s \<and> \<not> isWhiteSpace (last s)
         \<Longrightarrow> (segs \<noteq> [] \<longrightarrow> \<not> isWhiteSpace (hd (hd segs)))
         \<Longrightarrow> visitedPaths S segs (length segs) = foldersBetween S segs"
proof (induction segs rule: rev_induct)
  case Nil
  then show ?case by (simp add: foldersBetween_def)
next
  case (snoc x xs)
  let ?J = "join (xs @ [x]) [SLASH]"
  from snoc.prems(1) have ne: "\<forall>s\<in>set (xs @ [x]). s \<noteq> []" by simp
  from join_hd_last [OF _ ne, of "[SLASH]"]
  have j: "?J \<noteq> []" "hd ?J = hd (hd (xs @ [x]))" "last ?J = last x" by simp_all
  from snoc.prems(2) j have h1: "\<not> isWhiteSpace (hd ?J)" by simp
  from snoc.prems(1) j have l1: "\<not> isWhiteSpace (last ?J)" by simp
  have "hd (xs @ [x]) \<in> set (xs @ [x])" by (rule hd_in_set) simp
  with snoc.prems(1) have "hd (xs @ [x]) \<noteq> [] \<and> SLASH \<notin> set (hd (xs @ [x]))" by blast
  then have "hd (hd (xs @ [x])) \<noteq> SLASH" by (metis hd_in_set)
  with j have h2: "hd ?J \<noteq> SLASH" by simp
  from snoc.prems(1) have "x \<noteq> [] \<and> SLASH \<notin> set x" by simp
  then have "last x \<noteq> SLASH" by (metis last_in_set)
  with j have l2: "last ?J \<noteq> SLASH" by simp
  have jp: "joinPaths S ?J = S @ SLASH # ?J"
    using S j(1) h1 l1 h2 l2 by (rule joinPaths_plain)
  have p1: "\<forall>s\<in>set xs. s \<noteq> [] \<and> SLASH \<notin> set s \<and> \<not> isWhiteSpace (last s)"
    using snoc.prems(1) by simp
  have p2: "xs \<noteq> [] \<longrightarrow> \<not> isWhiteSpace (hd (hd xs))"
    using snoc.prems(2) by (cases xs) auto
  from snoc.IH [OF p1 p2] jp show ?case
    by (simp add: foldersBetween_snoc lit_slash)
qed

lemma foldersBetween_longer: "p \<in> set (foldersBetween S segs) \<Longrightarrow> length S < length p"
  by (auto simp: foldersBetween_def)

lemma foldersBetween_ancestors:
  assumes "p \<in> set (foldersBetween S segs)"
  shows "startsWith p (S @ [SLASH])
       \<and> startsWith (S @ SLASH # join (segs @ [nm]) [SLASH]) (p @ [SLASH])"
proof -
  from assms obtain k where k: "1 \<le> k" "k \<le> length segs"
    and p: "p = S @ [SLASH] @ join (take k segs) [SLASH]"
    by (auto simp: foldersBetween_def)
  from k have ne: "take k segs \<noteq> []" by (cases segs) auto
  have "segs @ [nm] = take k segs @ (drop k segs @ [nm])"
    by (simp only: append_assoc [symmetric] append_take_drop_id)
  then have "join (segs @ [nm]) [SLASH] = join (take k segs @ (drop k segs @ [nm])) [SLASH]"
    by (rule arg_cong)
  also have "\<dots> = join (take k segs) [SLASH] @ [SLASH] @ join (drop k segs @ [nm]) [SLASH]"
    using ne by (intro join_append) simp_all
  finally have "S @ SLASH # join (segs @ [nm]) [SLASH]
      = (p @ [SLASH]) @ join (drop k segs @ [nm]) [SLASH]"
    by (simp add: p)
  then have "startsWith (S @ SLASH # join (segs @ [nm]) [SLASH]) (p @ [SLASH])"
    by (simp only: startsWith_iff) blast
  moreover have "startsWith p (S @ [SLASH])"
    by (simp add: p startsWith_def)
  ultimately show ?thesis by simp
qed

text \<open>
  The prune walk on paths without whitespace at the ends of their segments. When the file
  lies below the source folder under the folder segments \<open>segs\<close>, no segment ends with
  whitespace, the first does not begin with it, and the source folder string is trimmed and
  has no trailing slash, the walk is the prune walk over the folders strictly between the
  source folder and the file, deepest first; the source folder is not among them, and each
  of them lies below the source folder and above the file.
\<close>

lemma deleteEmptyFolders_walk_between:
  assumes p: "path f = sourceFolder c @ SLASH # join (segs @ [nm]) [SLASH]"
      and nm: "endsWith nm (lit ''.md'')" "SLASH \<notin> set nm"
      and segs: "\<forall>s\<in>set segs. s \<noteq> [] \<and> SLASH \<notin> set s \<and> \<not> isWhiteSpace (last s)"
                "segs \<noteq> [] \<longrightarrow> \<not> isWhiteSpace (hd (hd segs))"
      and S: "sourceFolder c \<noteq> []" "trim (sourceFolder c) = sourceFolder c"
             "last (sourceFolder c) \<noteq> SLASH"
  shows "deleteEmptyFolders_walk V f c w = pruneWalk V (foldersBetween (sourceFolder c) segs) w
       \<and> sourceFolder c \<notin> set (foldersBetween (sourceFolder c) segs)
       \<and> (\<forall>q\<in>set (foldersBetween (sourceFolder c) segs).
             startsWith q (sourceFolder c @ [SLASH]) \<and> startsWith (path f) (q @ [SLASH]))"
proof (intro conjI)
  have rel: "getFilePathInSourceFolder f c = SLASH # join (segs @ [nm]) [SLASH]"
    using replace_prefix [of "sourceFolder c" "SLASH # join (segs @ [nm]) [SLASH]"]
    by (simp add: getFilePathInSourceFolder_def p)
  have parts: "splitPathString (getFolderFromPath (getFilePathInSourceFolder f c)) = segs"
  proof (cases "segs = []")
    case True
    then have "getFilePathInSourceFolder f c = [] @ SLASH # nm" by (simp add: rel)
    then have "getFolderFromPath (getFilePathInSourceFolder f c) = []"
      using getFolderFromPath_file [OF nm, of "[]"] by simp
    with True show ?thesis by (simp add: splitPathString_Nil)
  next
    case False
    then have "getFilePathInSourceFolder f c = (SLASH # join segs [SLASH]) @ SLASH # nm"
      by (simp add: rel join_snoc)
    then have "getFolderFromPath (getFilePathInSourceFolder f c) = SLASH # join segs [SLASH]"
      using getFolderFromPath_file [OF nm, of "SLASH # join segs [SLASH]"] by simp
    moreover from segs(1) have "\<forall>s\<in>set segs. s \<noteq> [] \<and> SLASH \<notin> set s" by blast
    ultimately show ?thesis using False by (simp add: splitPathString_join)
  qed
  show "deleteEmptyFolders_walk V f c w = pruneWalk V (foldersBetween (sourceFolder c) segs) w"
    using visitedPaths_between [OF S segs]
    by (simp add: walk_is_pruneWalk parts)
  show "sourceFolder c \<notin> set (foldersBetween (sourceFolder c) segs)"
    using foldersBetween_longer [of "sourceFolder c" "sourceFolder c" segs] by blast
  show "\<forall>q\<in>set (foldersBetween (sourceFolder c) segs).
             startsWith q (sourceFolder c @ [SLASH]) \<and> startsWith (path f) (q @ [SLASH])"
    using foldersBetween_ancestors [of _ "sourceFolder c" segs nm] by (simp add: p)
qed


text \<open>
  Claim C3 at a folder whose name begins with a space. The claim says that the prune walk
  visits only the folders strictly between the rule's source folder and the file. For the
  file \<open>Notes/ x/a.md\<close> under the source folder \<open>Notes\<close>, \<open>joinPaths\<close> trims the segment
  \<open>" x"\<close>: the walk looks up \<open>Notes/x\<close>, a sibling that is not on the way to the file, finds
  it empty and deletes it, and never visits \<open>Notes/ x\<close>, which stays behind empty.
\<close>

theorem prune_walk_deletes_sibling_folder:
  "deleteEmptyFolders_walk refVault spacedFile notesRule spacedPlugin
     = Returned (spacedPlugin
         \<lparr>app := \<lparr>tree = [Folder (lit ''Notes'') [Folder (lit ''Notes/ x'') []]],
                   clock = 1700000000000\<rparr>,
          calls := [CallGetAbstractFileByPath (lit ''Notes/x''),
                    CallDelete (Folder (lit ''Notes/x'') []) True]\<rparr>)"
  by code_simp

end
